theory Spec2Isabelle
  imports Main "HOL-Library.Char_ord" "HOL-Library.List_Lexorder" "HOL-Library.Multiset"
begin

section \<open>The twmap processor (src/src/processor.ts)\<close>

text \<open>
  A JavaScript string is modelled as the list of its code units, restricted to the units
  below 256 (type \<open>string\<close>). The default comparison of \<open>Array.prototype.sort\<close> is
  the lexicographic order of the code units, which is the order of \<open>char list\<close>.
\<close>

subsection \<open>JavaScript containers: insertion-ordered Set and Map\<close>

text \<open>
  A \<open>Set<string>\<close> is the list of its members in insertion order; \<open>add\<close> of a member
  already present changes nothing. A \<open>Map<string, T>\<close> is the list of its entries in
  insertion order; \<open>set\<close> of a present key replaces the value in place, \<open>set\<close> of a new key
  appends the entry.
\<close>

definition set_add :: "string list \<Rightarrow> string \<Rightarrow> string list" where
  "set_add s x = (if x \<in> set s then s else s @ [x])"

definition map_has :: "(string \<times> 'v) list \<Rightarrow> string \<Rightarrow> bool" where
  "map_has m k = (map_of m k \<noteq> None)"

fun map_set :: "(string \<times> 'v) list \<Rightarrow> string \<Rightarrow> 'v \<Rightarrow> (string \<times> 'v) list" where
  "map_set [] k v = [(k, v)]"
| "map_set ((k', v') # m) k v = (if k' = k then (k, v) # m else (k', v') # map_set m k v)"

subsection \<open>Data of the processor\<close>

text \<open>
  The types of types.ts as the processor uses them. Two fields have other names here:
  \<open>Config.output\<close> is \<open>outputPath\<close> and \<open>ParseResult.error\<close> is \<open>errorText\<close>.
  \<open>failure\<close> is what a call can throw.
\<close>

datatype Mode = Hash | Incremental | Readable

record Config =
  input :: "string list"
  ignore :: "string list"
  outputPath :: string
  mode :: Mode
  prefix :: string
  cssCompressor :: bool

record ParseResult =
  filePath :: string
  success :: bool
  classNames :: "string list"
  errorText :: "string option"

record ClassMapping =
  original :: string
  generated :: string

datatype failure =
    GlobError string
  | FileReadError string
  | ParseError string
  | WriteError string
  | ConfigurationError string

subsection \<open>findFiles\<close>

text \<open>
  \<open>glob\<close> is the external directory walker: for a pattern and the ignore list it either
  throws or returns the matching absolute paths. A pattern whose call throws adds nothing
  and leaves a warning; the matches of the others are added to one Set.
\<close>

definition findFiles_step ::
  "(string \<Rightarrow> string list \<Rightarrow> failure + string list) \<Rightarrow> string list \<Rightarrow>
   string list \<times> (string \<times> failure) list \<Rightarrow> string \<Rightarrow> string list \<times> (string \<times> failure) list" where
  "findFiles_step glob ign st pattern =
     (case glob pattern ign of
        Inl e \<Rightarrow> (fst st, snd st @ [(pattern, e)])
      | Inr matches \<Rightarrow> (foldl set_add (fst st) matches, snd st))"

definition findFiles ::
  "(string \<Rightarrow> string list \<Rightarrow> failure + string list) \<Rightarrow> Config \<Rightarrow>
   string list \<times> (string \<times> failure) list" where
  "findFiles glob cfg = foldl (findFiles_step glob (ignore cfg)) ([], []) (input cfg)"

subsection \<open>Canonical form and generateCSSFile\<close>

text \<open>
  \<open>original.split(/\s+/)\<close>: every maximal run of whitespace separates two pieces, so a
  string that starts or ends with whitespace has an empty first or last piece, and the
  empty string splits into one empty piece. \<open>inws\<close> tells that the previous unit was
  whitespace, \<open>cur\<close> is the piece being read.
\<close>

definition is_ws :: "char \<Rightarrow> bool" where
  "is_ws c = (c \<in> set [CHR 0x09, CHR 0x0A, CHR 0x0B, CHR 0x0C, CHR 0x0D, CHR 0x20, CHR 0xA0])"

fun split_ws :: "bool \<Rightarrow> string \<Rightarrow> string \<Rightarrow> string list" where
  "split_ws inws cur [] = [cur]"
| "split_ws inws cur (c # cs) =
     (if is_ws c then (if inws then split_ws True cur cs else cur # split_ws True [] cs)
      else split_ws False (cur @ [c]) cs)"

definition split_whitespace :: "string \<Rightarrow> string list" where
  "split_whitespace s = split_ws False [] s"

definition trim :: "string \<Rightarrow> string" where
  "trim s = rev (dropWhile is_ws (rev (dropWhile is_ws s)))"

fun join :: "string \<Rightarrow> string list \<Rightarrow> string" where
  "join sep [] = []"
| "join sep [x] = x"
| "join sep (x # y # xs) = x @ sep @ join sep (y # xs)"

definition tokens :: "string \<Rightarrow> string list" where
  "tokens s = filter (\<lambda>cls. length (trim cls) > 0) (split_whitespace s)"

definition normalized :: "string \<Rightarrow> string" where
  "normalized orig = join '' '' (sort (tokens orig))"

definition seenApply_step ::
  "(string \<times> ClassMapping) list \<Rightarrow> string \<times> string \<Rightarrow> (string \<times> ClassMapping) list" where
  "seenApply_step seenApply entry =
     (if \<not> map_has seenApply (normalized (fst entry))
      then map_set seenApply (normalized (fst entry))
             \<lparr>original = fst entry, generated = snd entry\<rparr>
      else seenApply)"

text \<open>The list \<open>classMappings\<close> that generateCSSFile hands to \<open>generateCSS\<close>.\<close>

definition classMappings :: "(string \<times> string) list \<Rightarrow> ClassMapping list" where
  "classMappings m = map snd (foldl seenApply_step [] m)"

subsection \<open>The name generator\<close>

text \<open>
  Modelled from the spec: the class ClassNameGenerator (generator.ts) is not among the
  sources; the processor only calls its \<open>generateClassName\<close> and \<open>reset\<close>. The spec (4.3)
  gives the generator an append-only counter and the table of the names it has handed
  out, so that a repeated class-string gets its name again; \<open>hash\<close> truncates a digest
  to a fixed width, \<open>readable\<close> keeps the alphanumeric units up to a bounded length, and
  both append a numeric suffix when the name is taken by another class-string;
  \<open>incremental\<close> takes the next integer. The digest and the two widths are parameters.
\<close>

record Naming =
  digest :: "string \<Rightarrow> string"
  hashWidth :: nat
  slugWidth :: nat

record GenState =
  counter :: nat
  table :: "(string \<times> string) list"

definition digit_char :: "nat \<Rightarrow> char" where
  "digit_char d = ''0123456789'' ! d"

function dec :: "nat \<Rightarrow> string" where
  "dec n = (if n < 10 then [digit_char n] else dec (n div 10) @ [digit_char (n mod 10)])"
  by pat_completeness auto
termination
  by (relation "measure (\<lambda>n. n)") auto

definition is_alnum :: "char \<Rightarrow> bool" where
  "is_alnum c = ((CHR ''a'' \<le> c \<and> c \<le> CHR ''z'') \<or> (CHR ''A'' \<le> c \<and> c \<le> CHR ''Z'')
                 \<or> (CHR ''0'' \<le> c \<and> c \<le> CHR ''9''))"

text \<open>
  The first of \<open>base\<close>, \<open>base0\<close>, \<open>base1\<close>, ... that is not in use. Among
  \<open>length used + 1\<close> different suffixed candidates one is free, so the search is bounded
  and its last branch is never taken.
\<close>

definition fresh_name :: "string list \<Rightarrow> string \<Rightarrow> string" where
  "fresh_name used base =
     (if base \<notin> set used then base
      else (case find (\<lambda>k. base @ dec k \<notin> set used) [0 ..< Suc (length used)] of
              Some k \<Rightarrow> base @ dec k
            | None \<Rightarrow> base))"

definition new_name :: "Naming \<Rightarrow> Config \<Rightarrow> GenState \<Rightarrow> string \<Rightarrow> string" where
  "new_name nm cfg g cs =
     (case mode cfg of
        Hash \<Rightarrow>
          fresh_name (map snd (table g)) (prefix cfg @ take (hashWidth nm) (digest nm cs))
      | Incremental \<Rightarrow> prefix cfg @ dec (counter g)
      | Readable \<Rightarrow>
          fresh_name (map snd (table g)) (prefix cfg @ take (slugWidth nm) (filter is_alnum cs)))"

definition generateClassName ::
  "Naming \<Rightarrow> Config \<Rightarrow> GenState \<Rightarrow> string \<Rightarrow> string \<times> GenState" where
  "generateClassName nm cfg g cs =
     (case map_of (table g) cs of
        Some name \<Rightarrow> (name, g)
      | None \<Rightarrow>
          (let name = new_name nm cfg g cs
           in (name, g\<lparr>counter := (if mode cfg = Incremental then counter g + 1 else counter g),
                        table := table g @ [(cs, name)]\<rparr>)))"

definition gen_reset :: "GenState \<Rightarrow> GenState" where
  "gen_reset g = \<lparr>counter = 0, table = []\<rparr>"

subsection \<open>The processor: constructor, generateMappings, reset\<close>

record TwmapProcessor =
  config :: Config
  classGenerator :: GenState
  mappings :: "(string \<times> string) list"
  dryRun :: bool

definition new_TwmapProcessor :: "Config \<Rightarrow> bool \<Rightarrow> TwmapProcessor" where
  "new_TwmapProcessor cfg dry =
     \<lparr>config = cfg, classGenerator = \<lparr>counter = 0, table = []\<rparr>, mappings = [], dryRun = dry\<rparr>"

text \<open>The Set \<open>allClassNames\<close>: every class-string of every parse result, in order.\<close>

definition allClassNames :: "ParseResult list \<Rightarrow> string list" where
  "allClassNames parseResults = foldl (\<lambda>s r. foldl set_add s (classNames r)) [] parseResults"

definition generateMappings_step :: "Naming \<Rightarrow> TwmapProcessor \<Rightarrow> string \<Rightarrow> TwmapProcessor" where
  "generateMappings_step nm p className =
     (if \<not> map_has (mappings p) className
      then (let r = generateClassName nm (config p) (classGenerator p) className
            in p\<lparr>classGenerator := snd r, mappings := map_set (mappings p) className (fst r)\<rparr>)
      else p)"

definition generateMappings :: "Naming \<Rightarrow> TwmapProcessor \<Rightarrow> ParseResult list \<Rightarrow> TwmapProcessor" where
  "generateMappings nm p parseResults =
     foldl (generateMappings_step nm) p (allClassNames parseResults)"

definition reset :: "TwmapProcessor \<Rightarrow> TwmapProcessor" where
  "reset p = p\<lparr>mappings := [], classGenerator := gen_reset (classGenerator p)\<rparr>"

subsection \<open>The rewriter\<close>

text \<open>
  Modelled from the spec: the class FileParser (parser.ts) with \<open>parseFile\<close> and
  \<open>replaceClassNamesInFile\<close> is not among the sources. The spec (3, 4.4) describes the
  rewriter on the occurrences of one file: each has the byte range of the attribute value
  in the file content, the literal string for a safe occurrence, and the flag \<open>safe\<close>
  (false for an occurrence classified Dynamic). The range is taken to cover the bytes of
  the value itself, so that the delimiters around it stay where they are. The occurrences
  are sorted by start; a safe occurrence whose value has an entry in the mapping, compared
  with every run of whitespace as one space, is replaced by the short name; the planned
  replacements are applied from the last range to the first.
\<close>

record ClassOccurrence =
  file_path :: string
  byte_range :: "nat \<times> nat"
  raw_value :: "string option"
  safe :: bool

record RewriteOutcome =
  new_text :: string
  replaced :: nat
  skipped :: nat

definition ws_key :: "string \<Rightarrow> string" where
  "ws_key s = join '' '' (tokens s)"

definition lookup_mapping :: "(string \<times> string) list \<Rightarrow> string \<Rightarrow> string option" where
  "lookup_mapping m raw = map_option snd (find (\<lambda>entry. ws_key (fst entry) = ws_key raw) m)"

definition planned_for :: "(string \<times> string) list \<Rightarrow> ClassOccurrence \<Rightarrow> (nat \<times> nat \<times> string) option" where
  "planned_for m occ =
     (if safe occ then
        (case raw_value occ of
           None \<Rightarrow> None
         | Some raw \<Rightarrow>
             (case lookup_mapping m raw of
                None \<Rightarrow> None
              | Some short \<Rightarrow> Some (fst (byte_range occ), snd (byte_range occ), short)))
      else None)"

definition plan :: "(string \<times> string) list \<Rightarrow> ClassOccurrence list \<Rightarrow> (nat \<times> nat \<times> string) list" where
  "plan m occs = List.map_filter (planned_for m) (sort_key (\<lambda>occ. fst (byte_range occ)) occs)"

fun apply_replacement :: "nat \<times> nat \<times> string \<Rightarrow> string \<Rightarrow> string" where
  "apply_replacement (s, e, short) text = take s text @ short @ drop e text"

definition rewrite :: "string \<Rightarrow> ClassOccurrence list \<Rightarrow> (string \<times> string) list \<Rightarrow> RewriteOutcome" where
  "rewrite content occs m =
     \<lparr>new_text = foldr apply_replacement (plan m occs) content,
      replaced = length (plan m occs),
      skipped = length (filter (\<lambda>occ. \<not> safe occ) occs)\<rparr>"

text \<open>
  Where an occurrence that starts at \<open>pos\<close> starts in the rewritten text: every
  replacement that ends at or before \<open>pos\<close> moves it by the length of the short name
  less the width of the replaced range.
\<close>

definition shifted_start :: "(nat \<times> nat \<times> string) list \<Rightarrow> nat \<Rightarrow> nat" where
  "shifted_start rs pos =
     pos + sum_list (map (\<lambda>r. length (snd (snd r))) (filter (\<lambda>r. fst (snd r) \<le> pos) rs))
         - sum_list (map (\<lambda>r. fst (snd r) - fst r) (filter (\<lambda>r. fst (snd r) \<le> pos) rs))"

text \<open>
  Ranges as the parser gives them for the attribute values of one text of length \<open>n\<close>:
  in ascending order from \<open>cur\<close>, none reaching into the next, all inside the text.
\<close>

fun ranges_ok :: "nat \<Rightarrow> nat \<Rightarrow> (nat \<times> nat) list \<Rightarrow> bool" where
  "ranges_ok cur n [] = (cur \<le> n)"
| "ranges_ok cur n ((s, e) # rs) = (cur \<le> s \<and> s \<le> e \<and> ranges_ok e n rs)"

definition occurrences_ok :: "string \<Rightarrow> ClassOccurrence list \<Rightarrow> bool" where
  "occurrences_ok content occs =
     ranges_ok 0 (length content) (map byte_range (sort_key (\<lambda>occ. fst (byte_range occ)) occs))"


text \<open>The bytes of a text in a range.\<close>

definition bytes_at :: "string \<Rightarrow> nat \<times> nat \<Rightarrow> string" where
  "bytes_at text rg = take (snd rg - fst rg) (drop (fst rg) text)"

subsection \<open>The run: process and main\<close>

text \<open>
  The collaborators of the processor that are outside the sources: the directory walker
  \<open>glob\<close>, the parser's \<open>parseFile\<close> (it returns a result value; a file that cannot
  be read or parsed gives a result with \<open>success\<close> false), the occurrences the parser
  finds in a file's text, whether a path can be written, the check of the configuration,
  and the parameters of the name generator.
\<close>

record Env =
  glob :: "string \<Rightarrow> string list \<Rightarrow> failure + string list"
  parseFile :: "(string \<Rightarrow> string option) \<Rightarrow> string \<Rightarrow> ParseResult"
  occurrencesOf :: "string \<Rightarrow> string \<Rightarrow> failure + ClassOccurrence list"
  writable :: "string \<Rightarrow> bool"
  validateConfig :: "Config \<Rightarrow> failure option"
  naming :: Naming

datatype ProgressMark = DoneMark | DryMark | FailMark

datatype Event =
    WarnGlob string failure
  | WarnParseFailures nat
  | ErrorParseFailed string string
  | InfoMappings nat
  | PlanReported string nat nat
  | Progress ProgressMark
  | ErrorUpdateFailed string failure
  | InfoDryRunCss string
  | InfoStats "ClassMapping list"
  | InfoDryRunSummary "string list"
  | InfoCompleted string
  | ErrorProcess failure

text \<open>
  The world a run acts on: the source files on disk, the stylesheet (the destination, the
  rules handed to \<open>generateCSS\<close> and the compression flag; its text is left abstract),
  and what was logged or printed, in order. Log lines that only announce a phase, timings
  and telemetry are left out.
\<close>

record World =
  disk :: "string \<Rightarrow> string option"
  stylesheet :: "(string \<times> ClassMapping list \<times> bool) option"
  events :: "Event list"

definition emit :: "Event list \<Rightarrow> World \<Rightarrow> World" where
  "emit es w = w\<lparr>events := events w @ es\<rparr>"

text \<open>
  Modelled from the spec: \<open>replaceClassNamesInFile\<close> (parser.ts, not among the sources)
  reads the file, rewrites its text with the mapping and writes it back; with the dry-run
  flag it reports the plan and writes nothing; a failure to read, parse or write is
  thrown. The call is synchronous, as its call site (not awaited, inside \<open>try\<close>) takes it.
\<close>

definition replaceClassNamesInFile ::
  "Env \<Rightarrow> string \<Rightarrow> (string \<times> string) list \<Rightarrow> bool \<Rightarrow> World \<Rightarrow> failure + World" where
  "replaceClassNamesInFile env path m dry w =
     (case disk w path of
        None \<Rightarrow> Inl (FileReadError path)
      | Some content \<Rightarrow>
          (case occurrencesOf env path content of
             Inl e \<Rightarrow> Inl e
           | Inr occs \<Rightarrow>
               (let out = rewrite content occs m
                in if dry then Inr (emit [PlanReported path (replaced out) (skipped out)] w)
                   else if writable env path
                        then Inr (w\<lparr>disk := (disk w)(path \<mapsto> new_text out)\<rparr>)
                        else Inl (WriteError path))))"

definition updateSourceFile :: "Env \<Rightarrow> TwmapProcessor \<Rightarrow> World \<Rightarrow> ParseResult \<Rightarrow> World" where
  "updateSourceFile env p w result =
     (if length (classNames result) > 0 then
        (case replaceClassNamesInFile env (filePath result) (mappings p) (dryRun p) w of
           Inr w' \<Rightarrow> emit [Progress (if dryRun p then DryMark else DoneMark)] w'
         | Inl e \<Rightarrow> emit [ErrorUpdateFailed (filePath result) e, Progress FailMark] w)
      else w)"

text \<open>
  Modelled from the spec: \<open>generateCSS\<close> (css-generator.ts, not among the sources) writes
  one rule for each mapping it is given to the destination; a failure to write is thrown.
\<close>

definition generateCSS :: "Env \<Rightarrow> ClassMapping list \<Rightarrow> string \<Rightarrow> bool \<Rightarrow> World \<Rightarrow> failure + World" where
  "generateCSS env cms dest compress w =
     (if writable env dest then Inr (w\<lparr>stylesheet := Some (dest, cms, compress)\<rparr>)
      else Inl (WriteError dest))"

definition generateCSSFile :: "Env \<Rightarrow> TwmapProcessor \<Rightarrow> World \<Rightarrow> failure + World" where
  "generateCSSFile env p w =
     (if dryRun p then Inr (emit [InfoDryRunCss (outputPath (config p))] w)
      else generateCSS env (classMappings (mappings p)) (outputPath (config p))
             (cssCompressor (config p)) w)"

definition parse_failure_events :: "ParseResult list \<Rightarrow> Event list" where
  "parse_failure_events failedParses =
     (if length failedParses > 0 then
        WarnParseFailures (length failedParses) #
        concat (map (\<lambda>r. case errorText r of
                            None \<Rightarrow> []
                          | Some e \<Rightarrow> (if e = [] then [] else [ErrorParseFailed (filePath r) e]))
                    failedParses)
      else [])"

definition parseResults :: "Env \<Rightarrow> TwmapProcessor \<Rightarrow> World \<Rightarrow> ParseResult list" where
  "parseResults env p w = map (parseFile env (disk w)) (fst (findFiles (glob env) (config p)))"

definition successfulParses :: "Env \<Rightarrow> TwmapProcessor \<Rightarrow> World \<Rightarrow> ParseResult list" where
  "successfulParses env p w = filter success (parseResults env p w)"

definition failedParses :: "Env \<Rightarrow> TwmapProcessor \<Rightarrow> World \<Rightarrow> ParseResult list" where
  "failedParses env p w = filter (\<lambda>r. \<not> success r) (parseResults env p w)"

definition process :: "Env \<Rightarrow> TwmapProcessor \<Rightarrow> World \<Rightarrow> failure option \<times> TwmapProcessor \<times> World" where
  "process env p w =
     (let w1 = emit (map (\<lambda>pe. WarnGlob (fst pe) (snd pe))
                         (snd (findFiles (glob env) (config p)))) w;
          w2 = emit (parse_failure_events (failedParses env p w)) w1;
          p1 = generateMappings (naming env) p (successfulParses env p w);
          w3 = emit [InfoMappings (length (mappings p1))] w2;
          w4 = foldl (updateSourceFile env p1) w3 (successfulParses env p w)
      in case generateCSSFile env p1 w4 of
           Inl e \<Rightarrow> (Some e, p1, emit [ErrorProcess e] w4)
         | Inr w5 \<Rightarrow>
             (let w6 = emit [InfoStats (map (\<lambda>entry. \<lparr>original = fst entry, generated = snd entry\<rparr>)
                                          (mappings p1))] w5;
                  changedFiles = filter (\<lambda>r. length (classNames r) > 0)
                                   (successfulParses env p w);
                  w7 = (if dryRun p1 then emit [InfoDryRunSummary (map filePath changedFiles)] w6
                        else w6)
              in (None, p1, emit [InfoCompleted (outputPath (config p1))] w7)))"

text \<open>
  \<open>main\<close> of index.ts from the loaded configuration on: the configuration is checked before
  a processor exists; a failure there or one thrown by \<open>process\<close> ends the program with
  exit code 1 (the first component).
\<close>

definition main :: "Env \<Rightarrow> Config \<Rightarrow> bool \<Rightarrow> World \<Rightarrow> failure option \<times> World" where
  "main env cfg dry w =
     (case validateConfig env cfg of
        Some e \<Rightarrow> (Some e, w)
      | None \<Rightarrow>
          (let r = process env (new_TwmapProcessor cfg dry) w
           in (fst r, snd (snd r))))"



subsection \<open>getMappings and the Map objects\<close>

text \<open>
  \<open>getMappings\<close> is about which Map object is which, so here the Map objects live in a
  store: an address is an index into the list of all Map objects, \<open>new Map(src)\<close>
  allocates the next address with the entries of \<open>src\<close>. The processor's private field
  holds the address \<open>this_mappings\<close>; the record \<open>TwmapProcessor\<close> above carries the
  entries at that address.
\<close>

type_synonym store = "(string \<times> string) list list"

definition new_Map :: "store \<Rightarrow> (string \<times> string) list \<Rightarrow> nat \<times> store" where
  "new_Map h entries = (length h, h @ [entries])"

definition getMappings :: "store \<Rightarrow> nat \<Rightarrow> nat \<times> store" where
  "getMappings h this_mappings = new_Map h (h ! this_mappings)"

datatype MapOp = MapSet string string | MapDelete string | MapClear

fun map_op :: "MapOp \<Rightarrow> (string \<times> string) list \<Rightarrow> (string \<times> string) list" where
  "map_op (MapSet k v) m = map_set m k v"
| "map_op (MapDelete k) m = filter (\<lambda>entry. fst entry \<noteq> k) m"
| "map_op MapClear m = []"

definition mutate :: "nat \<Rightarrow> store \<Rightarrow> MapOp \<Rightarrow> store" where
  "mutate a h mop = h[a := map_op mop (h ! a)]"

subsection \<open>Invariant of the name allocation\<close>

text \<open>
  What holds of a processor between calls: the generator's table has each class-string
  and each name once, in incremental mode its names are the numbers below the counter, and
  the processor's mapping has the same entries as the table. It holds of a new processor
  and after \<open>reset\<close>, and \<open>generateMappings\<close> keeps it.
\<close>

definition gen_inv :: "Config \<Rightarrow> GenState \<Rightarrow> bool" where
  "gen_inv cfg g =
     (distinct (map fst (table g)) \<and> distinct (map snd (table g)) \<and>
      (mode cfg = Incremental \<longrightarrow>
         map snd (table g) = map (\<lambda>i. prefix cfg @ dec i) [0 ..< counter g]))"

definition proc_inv :: "TwmapProcessor \<Rightarrow> bool" where
  "proc_inv p =
     (gen_inv (config p) (classGenerator p) \<and> distinct (map fst (mappings p)) \<and>
      set (mappings p) = set (table (classGenerator p)))"

text \<open>What holds of the Map \<open>seenApply\<close> during the loop of generateCSSFile.\<close>

definition seen_ok :: "(string \<times> ClassMapping) list \<Rightarrow> bool" where
  "seen_ok seen = (distinct (map fst seen) \<and> map fst seen = map (\<lambda>kc. normalized (original (snd kc))) seen)"

subsection \<open>Example inputs\<close>

definition glob_ex :: "string \<Rightarrow> string list \<Rightarrow> failure + string list" where
  "glob_ex pattern ign =
     (if pattern = ''src/*'' then Inr [''/a.html'', ''/b.tsx'', ''/d.tsx'']
      else if pattern = ''**/*.html'' then Inr [''/c.html'', ''/a.html'']
      else Inl (GlobError ''bad pattern''))"

definition cfg_ex :: Config where
  "cfg_ex = \<lparr>input = [''src/*'', ''['', ''**/*.html''], ignore = [], outputPath = ''out.css'',
             mode = Incremental, prefix = ''tw-'', cssCompressor = False\<rparr>"

definition parse_ex :: "(string \<Rightarrow> string option) \<Rightarrow> string \<Rightarrow> ParseResult" where
  "parse_ex d f =
     (if f = ''/a.html'' then
        \<lparr>filePath = f, success = True, classNames = [''flex p-4'', ''p-4 flex''], errorText = None\<rparr>
      else if f = ''/c.html'' then
        \<lparr>filePath = f, success = True, classNames = [''p-4 flex'', ''mt-2''], errorText = None\<rparr>
      else if f = ''/d.tsx'' then
        \<lparr>filePath = f, success = True, classNames = [''flex p-4''], errorText = None\<rparr>
      else
        \<lparr>filePath = f, success = False, classNames = [''hidden''],
         errorText = Some ''Unexpected token''\<rparr>)"

definition nm_ex :: Naming where
  "nm_ex = \<lparr>digest = (\<lambda>cs. ''c0ffee00''), hashWidth = 6, slugWidth = 12\<rparr>"

definition cfg_hash_ex :: Config where
  "cfg_hash_ex = cfg_ex\<lparr>mode := Hash\<rparr>"

definition results_ex :: "ParseResult list" where
  "results_ex = [parse_ex Map.empty ''/a.html'', parse_ex Map.empty ''/c.html'']"

definition glob_ex2 :: "string \<Rightarrow> string list \<Rightarrow> failure + string list" where
  "glob_ex2 pattern ign =
     (if pattern = ''**/*.html'' then Inr [''/a.html'', ''/c.html'']
      else glob_ex pattern ign)"

definition cfg_html_ex :: Config where
  "cfg_html_ex = cfg_ex\<lparr>input := [''**/*.html'']\<rparr>"

definition disk_ex :: "string \<Rightarrow> string option" where
  \<open>disk_ex =
     [''/a.html'' \<mapsto> ''<p class="flex p-4"><b class="p-4 flex">'',
      ''/b.tsx'' \<mapsto> ''<A className={'',
      ''/c.html'' \<mapsto> ''<i class="p-4 flex"><u class="mt-2">'',
      ''/d.tsx'' \<mapsto> ''<B className="flex p-4"/><A className={cx(a)}/>'']\<close>

definition mk_occ :: "string \<Rightarrow> nat \<Rightarrow> nat \<Rightarrow> string option \<Rightarrow> ClassOccurrence" where
  "mk_occ path s e raw = \<lparr>file_path = path, byte_range = (s, e), raw_value = raw, safe = (raw \<noteq> None)\<rparr>"

definition occurrences_ex :: "string \<Rightarrow> string \<Rightarrow> failure + ClassOccurrence list" where
  "occurrences_ex path content =
     (if path = ''/a.html'' then
        Inr [mk_occ path 10 18 (Some ''flex p-4''), mk_occ path 30 38 (Some ''p-4 flex'')]
      else if path = ''/c.html'' then
        Inr [mk_occ path 10 18 (Some ''p-4 flex''), mk_occ path 30 34 (Some ''mt-2'')]
      else if path = ''/d.tsx'' then
        Inr [mk_occ path 38 45 None, mk_occ path 14 22 (Some ''flex p-4'')]
      else Inl (ParseError path))"

definition validate_ex :: "Config \<Rightarrow> failure option" where
  "validate_ex cfg = (if prefix cfg = [] then Some (ConfigurationError ''prefix'') else None)"

definition env_ex :: Env where
  "env_ex = \<lparr>glob = glob_ex, parseFile = parse_ex, occurrencesOf = occurrences_ex,
             writable = (\<lambda>path. path \<noteq> ''/c.html''), validateConfig = validate_ex,
             naming = nm_ex\<rparr>"

definition env_ex2 :: Env where
  "env_ex2 = env_ex\<lparr>glob := glob_ex2\<rparr>"

definition world_ex :: World where
  "world_ex = \<lparr>disk = disk_ex, stylesheet = None, events = []\<rparr>"

definition results_dup_ex :: "ParseResult list" where
  "results_dup_ex =
     [\<lparr>filePath = ''/e.html'', success = True, classNames = [''flex flex p-4'', ''p-4 flex''],
       errorText = None\<rparr>]"

definition env_lock_ex :: Env where
  "env_lock_ex = env_ex\<lparr>writable := (\<lambda>path. path \<noteq> ''out.css'')\<rparr>"

definition content_d_ex :: string where
  \<open>content_d_ex = ''<B className="flex p-4"/><A className={cx(a)}/>''\<close>

definition occs_d_ex :: "ClassOccurrence list" where
  "occs_d_ex = [mk_occ ''/d.tsx'' 38 45 None, mk_occ ''/d.tsx'' 14 22 (Some ''flex p-4'')]"

definition mapping_ex :: "(string \<times> string) list" where
  "mapping_ex = [(''flex p-4'', ''tw-0''), (''p-4 flex'', ''tw-1''), (''mt-2'', ''tw-2'')]"

definition content_nested_ex :: string where
  \<open>content_nested_ex = ''<L className={f(<I className="flex p-4"/>)}/>''\<close>

definition occs_nested_ex :: "ClassOccurrence list" where
  "occs_nested_ex = [mk_occ ''/n.tsx'' 13 43 None, mk_occ ''/n.tsx'' 30 38 (Some ''flex p-4'')]"

definition content_a_ex :: string where
  \<open>content_a_ex = ''<p class="flex p-4"><b class="p-4 flex">''\<close>

definition occs_a_ex :: "ClassOccurrence list" where
  "occs_a_ex = [mk_occ ''/a.html'' 10 18 (Some ''flex p-4''), mk_occ ''/a.html'' 30 38 (Some ''p-4 flex'')]"



section \<open>Properties\<close>

subsection \<open>Containers\<close>

lemma set_set_add: "set (set_add s x) = insert x (set s)"
  by (auto simp: set_add_def)

lemma distinct_set_add: "distinct s \<Longrightarrow> distinct (set_add s x)"
  by (simp add: set_add_def)

lemma set_foldl_set_add: "set (foldl set_add s xs) = set s \<union> set xs"
  by (induction xs arbitrary: s) (auto simp: set_set_add)

lemma distinct_foldl_set_add: "distinct s \<Longrightarrow> distinct (foldl set_add s xs)"
  by (induction xs arbitrary: s) (auto simp: distinct_set_add)

lemma map_has_iff: "map_has m k \<longleftrightarrow> k \<in> fst ` set m"
  by (simp add: map_has_def map_of_eq_None_iff)

lemma map_set_absent: "\<not> map_has m k \<Longrightarrow> map_set m k v = m @ [(k, v)]"
  by (induction m) (auto simp: map_has_iff)

subsection \<open>findFiles\<close>

lemma findFiles_step_files:
  "set (fst (findFiles_step g ign st pattern)) =
     set (fst st) \<union> (case g pattern ign of Inl e \<Rightarrow> {} | Inr ms \<Rightarrow> set ms)"
  by (simp add: findFiles_step_def set_foldl_set_add split: sum.splits)

lemma findFiles_step_distinct:
  "distinct (fst st) \<Longrightarrow> distinct (fst (findFiles_step g ign st pattern))"
  by (simp add: findFiles_step_def distinct_foldl_set_add split: sum.splits)

lemma findFiles_step_warnings:
  "snd (findFiles_step g ign st pattern) =
     snd st @ (case g pattern ign of Inl e \<Rightarrow> [(pattern, e)] | Inr ms \<Rightarrow> [])"
  by (simp add: findFiles_step_def split: sum.splits)

lemma findFiles_loop_files:
  "set (fst (foldl (findFiles_step g ign) st ps)) =
     set (fst st) \<union> (\<Union>pattern \<in> set ps. case g pattern ign of Inl e \<Rightarrow> {} | Inr ms \<Rightarrow> set ms)"
  by (induction ps arbitrary: st) (auto simp: findFiles_step_files)

lemma findFiles_loop_distinct:
  "distinct (fst st) \<Longrightarrow> distinct (fst (foldl (findFiles_step g ign) st ps))"
  by (induction ps arbitrary: st) (auto simp: findFiles_step_distinct)

lemma findFiles_loop_warnings:
  "snd (foldl (findFiles_step g ign) st ps) =
     snd st @ concat (map (\<lambda>pattern. case g pattern ign of Inl e \<Rightarrow> [(pattern, e)] | Inr ms \<Rightarrow> []) ps)"
  by (induction ps arbitrary: st) (auto simp: findFiles_step_warnings)

lemma distinct_paths_of_results:
  assumes "distinct files" and "\<forall>f \<in> set files. filePath (pf f) = f"
  shows "distinct (map filePath (filter success (map pf files)))"
proof -
  have "map filePath (filter success (map pf files)) = filter (\<lambda>f. success (pf f)) files"
    using assms(2) by (induction files) auto
  then show ?thesis using assms(1) by simp
qed

lemma findFiles_ex:
  "findFiles glob_ex cfg_ex =
     ([''/a.html'', ''/b.tsx'', ''/d.tsx'', ''/c.html''], [(''['', GlobError ''bad pattern'')])"
  by (simp add: findFiles_def findFiles_step_def glob_ex_def cfg_ex_def set_add_def)

text \<open>
  C10. The list findFiles returns has no duplicates: it holds exactly the paths matched by
  the patterns whose glob call did not throw, each once, however many patterns match a
  path. A pattern whose call throws leaves one warning and takes nothing away from the
  matches of the others. \<open>process\<close> parses each element of this list once; when the parser
  reports each file under its own path, the successful results that are handed on to the
  update step are for pairwise different paths.
\<close>

theorem findFiles_duplicate_free:
  "distinct (fst (findFiles g cfg)) \<and>
   set (fst (findFiles g cfg)) =
     (\<Union>pattern \<in> set (input cfg). case g pattern (ignore cfg) of Inl e \<Rightarrow> {} | Inr ms \<Rightarrow> set ms) \<and>
   snd (findFiles g cfg) =
     concat (map (\<lambda>pattern. case g pattern (ignore cfg) of Inl e \<Rightarrow> [(pattern, e)] | Inr ms \<Rightarrow> [])
                 (input cfg)) \<and>
   ((\<forall>f \<in> set (fst (findFiles g cfg)). filePath (pf f) = f) \<longrightarrow>
      distinct (map filePath (filter success (map pf (fst (findFiles g cfg))))))"
  unfolding findFiles_def
  by (simp add: findFiles_loop_files findFiles_loop_distinct findFiles_loop_warnings
        distinct_paths_of_results)

theorem findFiles_duplicate_free_witness:
  "fst (findFiles glob_ex cfg_ex) = [''/a.html'', ''/b.tsx'', ''/d.tsx'', ''/c.html''] \<and>
   distinct (fst (findFiles glob_ex cfg_ex)) \<and>
   snd (findFiles glob_ex cfg_ex) = [(''['', GlobError ''bad pattern'')] \<and>
   map (\<lambda>f. filePath (parse_ex Map.empty f)) (fst (findFiles glob_ex cfg_ex)) =
     fst (findFiles glob_ex cfg_ex) \<and>
   distinct (map filePath (filter success (map (parse_ex Map.empty) (fst (findFiles glob_ex cfg_ex)))))"
  using findFiles_duplicate_free [of glob_ex cfg_ex "parse_ex Map.empty"]
  by (simp add: findFiles_ex parse_ex_def)

subsection \<open>Decimal numerals and fresh names\<close>

declare dec.simps [simp del]

lemma digit_char_inj: "a < 10 \<Longrightarrow> b < 10 \<Longrightarrow> digit_char a = digit_char b \<Longrightarrow> a = b"
proof -
  assume a: "a < 10" and b: "b < 10" and e: "digit_char a = digit_char b"
  have d: "distinct ''0123456789''" by simp
  have l: "length ''0123456789'' = 10" by simp
  from e have "''0123456789'' ! a = ''0123456789'' ! b" by (simp add: digit_char_def)
  with d a b l show "a = b" by (metis nth_eq_iff_index_eq)
qed

lemma dec_nonempty: "dec n \<noteq> []"
  by (subst dec.simps) simp

lemma dec_inj: "dec n = dec m \<Longrightarrow> n = m"
proof (induction n arbitrary: m rule: dec.induct)
  case (1 n)
  show ?case
  proof (cases "n < 10")
    case True
    then have n: "dec n = [digit_char n]" by (subst dec.simps) simp
    show ?thesis
    proof (cases "m < 10")
      case True
      then have "dec m = [digit_char m]" by (subst dec.simps) simp
      with n "1.prems" \<open>n < 10\<close> True show ?thesis by (auto dest: digit_char_inj)
    next
      case False
      then have "dec m = dec (m div 10) @ [digit_char (m mod 10)]" by (subst dec.simps) simp
      with n "1.prems" dec_nonempty [of "m div 10"] show ?thesis by (cases "dec (m div 10)") auto
    qed
  next
    case False
    then have n: "dec n = dec (n div 10) @ [digit_char (n mod 10)]" by (subst dec.simps) simp
    show ?thesis
    proof (cases "m < 10")
      case True
      then have "dec m = [digit_char m]" by (subst dec.simps) simp
      with n "1.prems" dec_nonempty [of "n div 10"] show ?thesis by (cases "dec (n div 10)") auto
    next
      case m: False
      then have "dec m = dec (m div 10) @ [digit_char (m mod 10)]" by (subst dec.simps) simp
      with n "1.prems" have e1: "dec (n div 10) = dec (m div 10)"
        and e2: "digit_char (n mod 10) = digit_char (m mod 10)" by auto
      from "1.IH" [OF False e1] have "n div 10 = m div 10" .
      moreover from e2 have "n mod 10 = m mod 10" by (auto dest!: digit_char_inj [rotated 2])
      ultimately show ?thesis by (metis div_mult_mod_eq)
    qed
  qed
qed

lemma fresh_candidate_exists:
  "\<exists>k \<in> set [0 ..< Suc (length used)]. base @ dec k \<notin> set used"
proof (rule ccontr)
  assume "\<not> ?thesis"
  then have "\<forall>k < Suc (length used). base @ dec k \<in> set used"
    by (auto simp: less_Suc_eq)
  then have sub: "(\<lambda>k. base @ dec k) ` {0 ..< Suc (length used)} \<subseteq> set used" by auto
  have "inj_on (\<lambda>k. base @ dec k) {0 ..< Suc (length used)}"
    by (auto simp: inj_on_def dest: dec_inj)
  then have "card ((\<lambda>k. base @ dec k) ` {0 ..< Suc (length used)}) = Suc (length used)"
    by (simp add: card_image)
  moreover have "card ((\<lambda>k. base @ dec k) ` {0 ..< Suc (length used)}) \<le> card (set used)"
    using sub by (simp add: card_mono)
  moreover have "card (set used) \<le> length used" by (rule card_length)
  ultimately show False by simp
qed

lemma fresh_name_unused: "fresh_name used base \<notin> set used"
proof (cases "base \<in> set used")
  case False
  then show ?thesis by (simp add: fresh_name_def)
next
  case True
  from fresh_candidate_exists [of used base]
  obtain k where "find (\<lambda>k. base @ dec k \<notin> set used) [0 ..< Suc (length used)] = Some k"
    by (cases "find (\<lambda>k. base @ dec k \<notin> set used) [0 ..< Suc (length used)]")
       (auto simp: find_None_iff)
  moreover from this have "base @ dec k \<notin> set used" by (auto simp: find_Some_iff)
  ultimately show ?thesis using True by (simp add: fresh_name_def)
qed

subsection \<open>generateMappings keeps the invariant\<close>

lemma set_allClassNames_aux:
  "set (foldl (\<lambda>s r. foldl set_add s (classNames r)) s0 rs) =
     set s0 \<union> (\<Union>r \<in> set rs. set (classNames r))"
  by (induction rs arbitrary: s0) (auto simp: set_foldl_set_add)

lemma set_allClassNames: "set (allClassNames rs) = (\<Union>r \<in> set rs. set (classNames r))"
  by (simp add: allClassNames_def set_allClassNames_aux)

lemma distinct_allClassNames_aux:
  "distinct s0 \<Longrightarrow> distinct (foldl (\<lambda>s r. foldl set_add s (classNames r)) s0 rs)"
  by (induction rs arbitrary: s0) (auto simp: distinct_foldl_set_add)

lemma distinct_allClassNames: "distinct (allClassNames rs)"
  by (simp add: allClassNames_def distinct_allClassNames_aux)

lemma new_name_unused:
  assumes "gen_inv cfg g"
  shows "new_name nm cfg g cs \<notin> snd ` set (table g)"
proof (cases "mode cfg")
  case Hash
  then show ?thesis using fresh_name_unused [of "map snd (table g)"] by (simp add: new_name_def)
next
  case Readable
  then show ?thesis using fresh_name_unused [of "map snd (table g)"] by (simp add: new_name_def)
next
  case Incremental
  with assms have "set (map snd (table g)) = (\<lambda>i. prefix cfg @ dec i) ` {0 ..< counter g}"
    by (simp add: gen_inv_def)
  moreover have "prefix cfg @ dec (counter g) \<notin> (\<lambda>i. prefix cfg @ dec i) ` {0 ..< counter g}"
    by (auto dest: dec_inj)
  ultimately show ?thesis using Incremental by (simp add: new_name_def)
qed

lemma generateClassName_new:
  assumes "gen_inv cfg g" and "cs \<notin> fst ` set (table g)"
  shows "gen_inv cfg (snd (generateClassName nm cfg g cs)) \<and>
         table (snd (generateClassName nm cfg g cs)) =
           table g @ [(cs, fst (generateClassName nm cfg g cs))]"
proof -
  from assms(2) have none: "map_of (table g) cs = None" by (simp add: map_of_eq_None_iff)
  have fresh: "new_name nm cfg g cs \<notin> snd ` set (table g)" by (rule new_name_unused [OF assms(1)])
  show ?thesis
    using assms fresh none
    by (auto simp: generateClassName_def gen_inv_def Let_def new_name_def)
qed

lemma generateMappings_step_old:
  "className \<in> fst ` set (mappings p) \<Longrightarrow> generateMappings_step nm p className = p"
  by (simp add: generateMappings_step_def map_has_iff)

lemma generateMappings_step_new:
  assumes "proc_inv p" and "className \<notin> fst ` set (mappings p)"
  shows "proc_inv (generateMappings_step nm p className) \<and>
         (\<exists>name. mappings (generateMappings_step nm p className) = mappings p @ [(className, name)])"
proof -
  from assms have g: "gen_inv (config p) (classGenerator p)"
    and k: "className \<notin> fst ` set (table (classGenerator p))"
    by (auto simp: proc_inv_def)
  note n = generateClassName_new [OF g k, of nm]
  from assms(2) have "\<not> map_has (mappings p) className" by (simp add: map_has_iff)
  then show ?thesis
    using assms n
    by (auto simp: generateMappings_step_def Let_def map_set_absent proc_inv_def)
qed

lemma generateMappings_loop:
  assumes "proc_inv p"
  shows "proc_inv (foldl (generateMappings_step nm) p cs) \<and>
         config (foldl (generateMappings_step nm) p cs) = config p \<and>
         (\<exists>new. mappings (foldl (generateMappings_step nm) p cs) = mappings p @ new) \<and>
         fst ` set (mappings (foldl (generateMappings_step nm) p cs)) =
           fst ` set (mappings p) \<union> set cs"
  using assms
proof (induction cs arbitrary: p)
  case Nil
  then show ?case by simp
next
  case (Cons c cs)
  show ?case
  proof (cases "c \<in> fst ` set (mappings p)")
    case True
    with Cons show ?thesis by (auto simp: generateMappings_step_old)
  next
    case False
    from generateMappings_step_new [OF Cons.prems False, of nm]
    obtain name where inv: "proc_inv (generateMappings_step nm p c)"
      and m: "mappings (generateMappings_step nm p c) = mappings p @ [(c, name)]" by blast
    have cfg: "config (generateMappings_step nm p c) = config p"
      by (simp add: generateMappings_step_def Let_def)
    from Cons.IH [OF inv] m cfg show ?thesis by auto
  qed
qed

lemma inj_of_distinct_values:
  "distinct (map snd t) \<Longrightarrow> (a, n) \<in> set t \<Longrightarrow> (b, n) \<in> set t \<Longrightarrow> a = b"
  by (metis distinct_map inj_on_def prod.collapse prod.inject snd_conv fst_conv)

subsection \<open>One short name for each class-string\<close>

lemma proc_inv_new: "proc_inv (new_TwmapProcessor cfg dry)"
  by (simp add: proc_inv_def gen_inv_def new_TwmapProcessor_def)

lemma proc_inv_reset: "proc_inv (reset p)"
  by (simp add: proc_inv_def gen_inv_def reset_def gen_reset_def)

lemma length_table_eq:
  assumes "proc_inv p"
  shows "length (table (classGenerator p)) = card (fst ` set (mappings p))"
proof -
  from assms have d: "distinct (map fst (table (classGenerator p)))"
    and e: "set (mappings p) = set (table (classGenerator p))"
    by (auto simp: proc_inv_def gen_inv_def)
  from d have "card (fst ` set (table (classGenerator p))) = length (table (classGenerator p))"
    by (metis distinct_card length_map set_map)
  with e show ?thesis by simp
qed

lemma hash_ex:
  "mappings (generateMappings nm_ex (new_TwmapProcessor cfg_hash_ex False) results_ex) =
     [(''flex p-4'', ''tw-c0ffee''), (''p-4 flex'', ''tw-c0ffee0''), (''mt-2'', ''tw-c0ffee1'')]"
  by code_simp

lemma incr_ex:
  "mappings (generateMappings nm_ex (new_TwmapProcessor cfg_ex False) results_ex) =
     [(''flex p-4'', ''tw-0''), (''p-4 flex'', ''tw-1''), (''mt-2'', ''tw-2'')]"
  by code_simp

text \<open>
  C1. Let the invariant hold of the processor (it does for a new processor and after
  \<open>reset\<close>) and let \<open>generateMappings\<close> run on the parse results \<open>rs\<close> (\<open>process\<close>
  passes the successful ones). Then the invariant holds again; every class-string of every
  result has exactly one short name in the mapping; the entries the mapping had before are
  still there, unchanged and in place; the generator has handed out exactly one name for
  each distinct class-string, however often and in however many files it occurs; and no
  short name belongs to two different class-strings.
\<close>

theorem generateMappings_one_name_each:
  assumes "proc_inv p"
  shows "proc_inv (generateMappings nm p rs) \<and>
         (\<forall>r \<in> set rs. \<forall>c \<in> set (classNames r).
            \<exists>!n. (c, n) \<in> set (mappings (generateMappings nm p rs))) \<and>
         (\<exists>new. mappings (generateMappings nm p rs) = mappings p @ new) \<and>
         length (table (classGenerator (generateMappings nm p rs))) =
           card (fst ` set (mappings p) \<union> (\<Union>r \<in> set rs. set (classNames r))) \<and>
         (\<forall>a b n. (a, n) \<in> set (mappings (generateMappings nm p rs)) \<and>
                  (b, n) \<in> set (mappings (generateMappings nm p rs)) \<longrightarrow> a = b)"
proof -
  let ?p = "generateMappings nm p rs"
  from generateMappings_loop [OF assms, of nm "allClassNames rs"]
  have inv: "proc_inv ?p"
    and pre: "\<exists>new. mappings ?p = mappings p @ new"
    and keys: "fst ` set (mappings ?p) = fst ` set (mappings p) \<union> (\<Union>r \<in> set rs. set (classNames r))"
    by (simp_all add: generateMappings_def set_allClassNames)
  from inv have dk: "distinct (map fst (mappings ?p))"
    and dv: "distinct (map snd (table (classGenerator ?p)))"
    and e: "set (mappings ?p) = set (table (classGenerator ?p))"
    by (auto simp: proc_inv_def gen_inv_def)
  have one: "\<exists>!n. (c, n) \<in> set (mappings ?p)" if "r \<in> set rs" "c \<in> set (classNames r)" for r c
  proof -
    from that keys have "c \<in> fst ` set (mappings ?p)" by auto
    then obtain n where "(c, n) \<in> set (mappings ?p)" by auto
    moreover have "n' = n" if "(c, n') \<in> set (mappings ?p)" for n'
      using dk that \<open>(c, n) \<in> set (mappings ?p)\<close> by (meson eq_key_imp_eq_value)
    ultimately show ?thesis by blast
  qed
  have inj: "a = b" if "(a, n) \<in> set (mappings ?p)" "(b, n) \<in> set (mappings ?p)" for a b n
    using inj_of_distinct_values [OF dv] that e by auto
  from length_table_eq [OF inv] keys
  have len: "length (table (classGenerator ?p)) =
               card (fst ` set (mappings p) \<union> (\<Union>r \<in> set rs. set (classNames r)))" by simp
  from inv one pre len inj show ?thesis by blast
qed

theorem generateMappings_one_name_each_witness:
  "proc_inv (new_TwmapProcessor cfg_hash_ex False) \<and>
   proc_inv (generateMappings nm_ex (new_TwmapProcessor cfg_hash_ex False) results_ex) \<and>
   mappings (generateMappings nm_ex (new_TwmapProcessor cfg_hash_ex False) results_ex) =
     [(''flex p-4'', ''tw-c0ffee''), (''p-4 flex'', ''tw-c0ffee0''), (''mt-2'', ''tw-c0ffee1'')] \<and>
   length (table (classGenerator
     (generateMappings nm_ex (new_TwmapProcessor cfg_hash_ex False) results_ex))) = 3"
proof -
  note t = generateMappings_one_name_each
             [OF proc_inv_new, of nm_ex cfg_hash_ex False results_ex]
  from t have a: "proc_inv (generateMappings nm_ex (new_TwmapProcessor cfg_hash_ex False) results_ex)"
    by (rule conjunct1)
  have b: "length (table (classGenerator
     (generateMappings nm_ex (new_TwmapProcessor cfg_hash_ex False) results_ex))) = 3"
    by code_simp
  from a b proc_inv_new hash_ex show ?thesis by blast
qed

subsection \<open>The order of name generation\<close>

lemma foldl_set_add_first:
  "distinct s \<Longrightarrow> foldl set_add s xs = rev (remdups (rev (s @ xs)))"
proof (induction xs rule: rev_induct)
  case Nil
  then show ?case by (simp add: distinct_remdups_id)
next
  case (snoc x xs)
  then show ?case by (auto simp: set_add_def)
qed

lemma allClassNames_concat_aux:
  "foldl (\<lambda>s r. foldl set_add s (classNames r)) s0 rs = foldl set_add s0 (concat (map classNames rs))"
  by (induction rs arbitrary: s0) simp_all

lemma allClassNames_first_occurrences:
  "allClassNames rs = rev (remdups (rev (concat (map classNames rs))))"
  by (simp add: allClassNames_def allClassNames_concat_aux foldl_set_add_first)

lemma incremental_loop:
  assumes "mode (config p) = Incremental"
    and "table (classGenerator p) = mappings p"
    and "distinct cs" and "set cs \<inter> fst ` set (mappings p) = {}"
  shows "mappings (foldl (generateMappings_step nm) p cs) =
           mappings p @ zip cs (map (\<lambda>i. prefix (config p) @ dec i)
                                   [counter (classGenerator p) ..< counter (classGenerator p) + length cs])"
  using assms
proof (induction cs arbitrary: p)
  case Nil
  then show ?case by simp
next
  case (Cons c cs)
  let ?q = "generateMappings_step nm p c"
  from Cons.prems have new: "c \<notin> fst ` set (mappings p)" by auto
  then have none: "map_of (mappings p) c = None" by (simp add: map_of_eq_None_iff)
  from new have nh: "\<not> map_has (mappings p) c" by (simp add: map_has_iff)
  have q: "mappings ?q = mappings p @ [(c, prefix (config p) @ dec (counter (classGenerator p)))]"
    "table (classGenerator ?q) = mappings ?q"
    "counter (classGenerator ?q) = Suc (counter (classGenerator p))"
    "config ?q = config p"
    using Cons.prems(1,2) none nh
    by (simp_all add: generateMappings_step_def generateClassName_def new_name_def Let_def
          map_set_absent)
  from Cons.prems q have "set cs \<inter> fst ` set (mappings ?q) = {}" by auto
  with Cons.IH [of ?q] Cons.prems q
  have "mappings (foldl (generateMappings_step nm) ?q cs) =
          mappings ?q @ zip cs (map (\<lambda>i. prefix (config p) @ dec i)
             [Suc (counter (classGenerator p)) ..< Suc (counter (classGenerator p)) + length cs])"
    by simp
  moreover have "[counter (classGenerator p) ..< counter (classGenerator p) + length (c # cs)] =
      counter (classGenerator p) #
      [Suc (counter (classGenerator p)) ..< Suc (counter (classGenerator p)) + length cs]"
    by (subst upt_rec) simp
  ultimately show ?case using q(1) by (simp del: upt_Suc)
qed

lemma process_mappings:
  "fst (snd (process env p w)) =
     generateMappings (naming env) p (successfulParses env p w)"
  by (simp add: process_def Let_def split: sum.splits)

text \<open>
  C4 (as amended). No order is imposed before the names are generated: \<open>process\<close> hands
  \<open>generateMappings\<close> the successful parse results in the order of the file list that
  findFiles returned (Promise.all keeps the results in the order of the files, whatever
  order the parses finish in), the class-strings are taken in that order, each at its
  first occurrence, and a new processor in incremental mode names the i-th of them
  prefix + i. The mapping is the same for the same file list in the same order; it
  follows the order in which the files were discovered.
\<close>

theorem mapping_follows_file_list_order:
  "fst (snd (process env p w)) =
     generateMappings (naming env) p (successfulParses env p w) \<and>
   successfulParses env p w =
     filter success (map (parseFile env (disk w)) (fst (findFiles (glob env) (config p)))) \<and>
   allClassNames rs = rev (remdups (rev (concat (map classNames rs)))) \<and>
   (mode cfg = Incremental \<longrightarrow>
      mappings (generateMappings nm (new_TwmapProcessor cfg dry) rs) =
        zip (allClassNames rs) (map (\<lambda>i. prefix cfg @ dec i) [0 ..< length (allClassNames rs)]))"
proof -
  have "mappings (generateMappings nm (new_TwmapProcessor cfg dry) rs) =
        zip (allClassNames rs) (map (\<lambda>i. prefix cfg @ dec i) [0 ..< length (allClassNames rs)])"
    if "mode cfg = Incremental"
    using incremental_loop [of "new_TwmapProcessor cfg dry" "allClassNames rs" nm] that
    by (simp add: generateMappings_def new_TwmapProcessor_def distinct_allClassNames)
  then show ?thesis
    using process_mappings allClassNames_first_occurrences
    by (simp add: successfulParses_def parseResults_def)
qed

theorem mapping_follows_file_list_order_witness:
  "mode cfg_ex = Incremental \<and>
   mappings (generateMappings nm_ex (new_TwmapProcessor cfg_ex False) results_ex) =
     zip (allClassNames results_ex)
         (map (\<lambda>i. prefix cfg_ex @ dec i) [0 ..< length (allClassNames results_ex)]) \<and>
   mappings (generateMappings nm_ex (new_TwmapProcessor cfg_ex False) results_ex) =
     [(''flex p-4'', ''tw-0''), (''p-4 flex'', ''tw-1''), (''mt-2'', ''tw-2'')]"
proof -
  have m: "mode cfg_ex = Incremental" by (simp add: cfg_ex_def)
  from mapping_follows_file_list_order [of env_ex "new_TwmapProcessor cfg_ex False" world_ex
         results_ex cfg_ex nm_ex False] m
  have "mappings (generateMappings nm_ex (new_TwmapProcessor cfg_ex False) results_ex) =
     zip (allClassNames results_ex)
         (map (\<lambda>i. prefix cfg_ex @ dec i) [0 ..< length (allClassNames results_ex)])"
    by blast
  with m incr_ex show ?thesis by blast
qed

lemma files_html_ex:
  "fst (findFiles (glob env_ex) cfg_html_ex) = [''/c.html'', ''/a.html'']"
  "fst (findFiles (glob env_ex2) cfg_html_ex) = [''/a.html'', ''/c.html'']"
  by code_simp+

lemma run_html_ex:
  "mappings (fst (snd (process env_ex (new_TwmapProcessor cfg_html_ex False) world_ex))) =
     [(''p-4 flex'', ''tw-0''), (''mt-2'', ''tw-1''), (''flex p-4'', ''tw-2'')]"
  "mappings (fst (snd (process env_ex2 (new_TwmapProcessor cfg_html_ex False) world_ex))) =
     [(''flex p-4'', ''tw-0''), (''p-4 flex'', ''tw-1''), (''mt-2'', ''tw-2'')]"
  unfolding process_mappings successfulParses_def parseResults_def by code_simp+

text \<open>
  C4 as stated fails: the same two files, found by the directory walker in two different
  orders, give the class-string \<open>mt-2\<close> two different names in incremental mode.
\<close>

theorem discovery_order_changes_numbering:
  "set (fst (findFiles (glob env_ex) cfg_html_ex)) = set (fst (findFiles (glob env_ex2) cfg_html_ex)) \<and>
   map_of (mappings (fst (snd (process env_ex (new_TwmapProcessor cfg_html_ex False) world_ex))))
     ''mt-2'' = Some ''tw-1'' \<and>
   map_of (mappings (fst (snd (process env_ex2 (new_TwmapProcessor cfg_html_ex False) world_ex))))
     ''mt-2'' = Some ''tw-2''"
  unfolding run_html_ex files_html_ex by auto

subsection \<open>One stylesheet rule for each canonical form\<close>

lemma seenApply_step_eq:
  "seenApply_step seen e =
     (if normalized (fst e) \<in> fst ` set seen then seen
      else seen @ [(normalized (fst e), \<lparr>original = fst e, generated = snd e\<rparr>)])"
  by (simp add: seenApply_step_def map_has_iff map_set_absent)

lemma seenApply_loop_ok:
  "seen_ok seen \<Longrightarrow> seen_ok (foldl seenApply_step seen m)"
proof (induction m arbitrary: seen)
  case Nil
  then show ?case by simp
next
  case (Cons e m)
  have "seen_ok (seenApply_step seen e)"
    using Cons.prems by (auto simp: seenApply_step_eq seen_ok_def)
  then show ?case using Cons.IH by simp
qed

lemma seenApply_loop_keys:
  "fst ` set (foldl seenApply_step seen m) = fst ` set seen \<union> (\<lambda>e. normalized (fst e)) ` set m"
  by (induction m arbitrary: seen) (auto simp: seenApply_step_eq)

lemma seenApply_loop_first:
  "(k, c) \<in> set (foldl seenApply_step seen m) \<Longrightarrow>
     (k, c) \<in> set seen \<or>
     (k \<notin> fst ` set seen \<and>
      find (\<lambda>e. normalized (fst e) = k) m = Some (original c, generated c))"
proof (induction m arbitrary: seen)
  case Nil
  then show ?case by simp
next
  case (Cons e m)
  from Cons.IH [OF Cons.prems [simplified]]
  show ?case
    by (auto simp: seenApply_step_eq split: if_splits)
qed

lemma classMappings_keys:
  "map (\<lambda>c. normalized (original c)) (classMappings m) = map fst (foldl seenApply_step [] m)"
proof -
  have "seen_ok (foldl seenApply_step [] m)"
    by (rule seenApply_loop_ok) (simp add: seen_ok_def)
  then show ?thesis by (simp add: classMappings_def seen_ok_def comp_def)
qed

lemma classMappings_distinct: "distinct (map (\<lambda>c. normalized (original c)) (classMappings m))"
proof -
  have "seen_ok (foldl seenApply_step [] m)"
    by (rule seenApply_loop_ok) (simp add: seen_ok_def)
  then show ?thesis by (simp add: classMappings_keys seen_ok_def)
qed

lemma classMappings_forms:
  "(\<lambda>c. normalized (original c)) ` set (classMappings m) = (\<lambda>e. normalized (fst e)) ` set m"
proof -
  have "set (map (\<lambda>c. normalized (original c)) (classMappings m)) =
        fst ` set (foldl seenApply_step [] m)"
    by (simp only: classMappings_keys set_map)
  then show ?thesis by (simp add: seenApply_loop_keys)
qed

lemma find_holds: "find P xs = Some x \<Longrightarrow> P x"
  by (induction xs) (auto split: if_splits)

lemma classMappings_first:
  assumes "c \<in> set (classMappings m)"
  shows "find (\<lambda>e. normalized (fst e) = normalized (original c)) m = Some (original c, generated c)"
proof -
  from assms obtain k where kc: "(k, c) \<in> set (foldl seenApply_step [] m)"
    by (auto simp: classMappings_def)
  from seenApply_loop_first [OF kc]
  have f: "find (\<lambda>e. normalized (fst e) = k) m = Some (original c, generated c)" by simp
  from find_holds [OF f] have "normalized (original c) = k" by simp
  with f show ?thesis by simp
qed

lemma normalized_permuted: "mset (tokens a) = mset (tokens b) \<Longrightarrow> normalized a = normalized b"
proof -
  assume "mset (tokens a) = mset (tokens b)"
  then have "sort (tokens a) = sort (tokens b)"
    by (metis properties_for_sort mset_sort sorted_sort)
  then show ?thesis by (simp add: normalized_def)
qed

lemma length_filter_distinct_member:
  "x \<in> set xs \<Longrightarrow> distinct xs \<Longrightarrow> length (filter (\<lambda>k. k = x) xs) = 1"
proof (induction xs)
  case Nil
  then show ?case by simp
next
  case (Cons y ys)
  show ?case
  proof (cases "y = x")
    case True
    with Cons.prems have "filter (\<lambda>k. k = x) ys = []" by (auto simp: filter_empty_conv)
    with True show ?thesis by simp
  next
    case False
    with Cons show ?thesis by auto
  qed
qed

lemma classMappings_one_rule:
  assumes "a \<in> fst ` set m"
  shows "length (filter (\<lambda>c. normalized (original c) = normalized a) (classMappings m)) = 1"
proof -
  let ?ks = "map (\<lambda>c. normalized (original c)) (classMappings m)"
  from assms have "normalized a \<in> set ?ks"
    using classMappings_forms [of m] by (auto simp: image_iff)
  moreover have "distinct ?ks" by (rule classMappings_distinct)
  ultimately have "length (filter (\<lambda>k. k = normalized a) ?ks) = 1"
    by (rule length_filter_distinct_member)
  then show ?thesis by (simp add: filter_map comp_def)
qed

text \<open>
  C3 (as amended). The list of rules that generateCSSFile hands to \<open>generateCSS\<close> has one
  entry for each canonical form (the pieces between runs of whitespace, the empty ones
  dropped, sorted, joined by single spaces) of the class-strings of the mapping, and no
  canonical form twice; each entry is the first pair of the mapping, in iteration order,
  with its canonical form. So two class-strings of the mapping with the same tokens the
  same number of times, in any order, share one rule; and after \<open>generateMappings\<close> two
  different class-strings have different short names, in every mode.
\<close>

theorem classMappings_one_rule_per_canonical_form:
  "distinct (map (\<lambda>c. normalized (original c)) (classMappings m)) \<and>
   (\<lambda>c. normalized (original c)) ` set (classMappings m) = (\<lambda>e. normalized (fst e)) ` set m \<and>
   (\<forall>c \<in> set (classMappings m).
      find (\<lambda>e. normalized (fst e) = normalized (original c)) m = Some (original c, generated c)) \<and>
   (\<forall>a b. a \<in> fst ` set m \<and> b \<in> fst ` set m \<and> mset (tokens a) = mset (tokens b) \<longrightarrow>
      normalized a = normalized b \<and>
      length (filter (\<lambda>c. normalized (original c) = normalized a \<or>
                           normalized (original c) = normalized b) (classMappings m)) = 1) \<and>
   (proc_inv p \<longrightarrow>
      (\<forall>a b na nb. (a, na) \<in> set (mappings (generateMappings nm p rs)) \<and>
                    (b, nb) \<in> set (mappings (generateMappings nm p rs)) \<and> a \<noteq> b \<longrightarrow> na \<noteq> nb))"
proof -
  have perm: "normalized a = normalized b \<and>
      length (filter (\<lambda>c. normalized (original c) = normalized a \<or>
                           normalized (original c) = normalized b) (classMappings m)) = 1"
    if "a \<in> fst ` set m" "mset (tokens a) = mset (tokens b)" for a b
  proof -
    from that(2) have e: "normalized a = normalized b" by (rule normalized_permuted)
    from classMappings_one_rule [OF that(1)] e show ?thesis by simp
  qed
  have names: "na \<noteq> nb"
    if "proc_inv p" "(a, na) \<in> set (mappings (generateMappings nm p rs))"
       "(b, nb) \<in> set (mappings (generateMappings nm p rs))" "a \<noteq> b" for a b na nb
  proof -
    from generateMappings_loop [OF that(1), of nm "allClassNames rs"]
    have "proc_inv (generateMappings nm p rs)" by (simp add: generateMappings_def)
    then have dv: "distinct (map snd (table (classGenerator (generateMappings nm p rs))))"
      and e: "set (mappings (generateMappings nm p rs)) =
              set (table (classGenerator (generateMappings nm p rs)))"
      by (auto simp: proc_inv_def gen_inv_def)
    from inj_of_distinct_values [OF dv] that(2,3,4) e show ?thesis by blast
  qed
  show ?thesis
  proof (intro conjI allI impI ballI)
    show "distinct (map (\<lambda>c. normalized (original c)) (classMappings m))"
      by (rule classMappings_distinct)
    show "(\<lambda>c. normalized (original c)) ` set (classMappings m) =
          (\<lambda>e. normalized (fst e)) ` set m"
      by (rule classMappings_forms)
    show "find (\<lambda>e. normalized (fst e) = normalized (original c)) m =
          Some (original c, generated c)" if "c \<in> set (classMappings m)" for c
      using that by (rule classMappings_first)
    show "normalized a = normalized b"
      if "a \<in> fst ` set m \<and> b \<in> fst ` set m \<and> mset (tokens a) = mset (tokens b)" for a b
      using perm [of a b] that by blast
    show "length (filter (\<lambda>c. normalized (original c) = normalized a \<or>
                           normalized (original c) = normalized b) (classMappings m)) = 1"
      if "a \<in> fst ` set m \<and> b \<in> fst ` set m \<and> mset (tokens a) = mset (tokens b)" for a b
      using perm [of a b] that by blast
    show "na \<noteq> nb"
      if "proc_inv p" and "(a, na) \<in> set (mappings (generateMappings nm p rs)) \<and>
                    (b, nb) \<in> set (mappings (generateMappings nm p rs)) \<and> a \<noteq> b" for a b na nb
      using names [of a na b nb] that by simp
  qed
qed

lemma dup_ex:
  "classMappings (mappings (generateMappings nm_ex (new_TwmapProcessor cfg_hash_ex False)
      results_dup_ex)) =
     [\<lparr>original = ''flex flex p-4'', generated = ''tw-c0ffee''\<rparr>,
      \<lparr>original = ''p-4 flex'', generated = ''tw-c0ffee0''\<rparr>]"
  by code_simp

lemma tokens_ex:
  "tokens ''flex flex p-4'' = [''flex'', ''flex'', ''p-4'']"
  "tokens ''p-4 flex'' = [''p-4'', ''flex'']"
  "tokens ''flex p-4'' = [''flex'', ''p-4'']"
  by code_simp+

lemma css_ex:
  "classMappings [(''flex p-4'', ''tw-c0ffee''), (''p-4 flex'', ''tw-c0ffee0''), (''mt-2'', ''tw-c0ffee1'')] =
     [\<lparr>original = ''flex p-4'', generated = ''tw-c0ffee''\<rparr>,
      \<lparr>original = ''mt-2'', generated = ''tw-c0ffee1''\<rparr>]"
  by code_simp

theorem classMappings_one_rule_per_canonical_form_witness:
  "proc_inv (new_TwmapProcessor cfg_hash_ex False) \<and>
   mappings (generateMappings nm_ex (new_TwmapProcessor cfg_hash_ex False) results_ex) =
     [(''flex p-4'', ''tw-c0ffee''), (''p-4 flex'', ''tw-c0ffee0''), (''mt-2'', ''tw-c0ffee1'')] \<and>
   mset (tokens ''flex p-4'') = mset (tokens ''p-4 flex'') \<and>
   normalized ''flex p-4'' = normalized ''p-4 flex'' \<and>
   classMappings (mappings (generateMappings nm_ex (new_TwmapProcessor cfg_hash_ex False) results_ex)) =
     [\<lparr>original = ''flex p-4'', generated = ''tw-c0ffee''\<rparr>,
      \<lparr>original = ''mt-2'', generated = ''tw-c0ffee1''\<rparr>] \<and>
   length (filter (\<lambda>c. normalized (original c) = normalized ''flex p-4'' \<or>
                        normalized (original c) = normalized ''p-4 flex'')
      (classMappings (mappings (generateMappings nm_ex (new_TwmapProcessor cfg_hash_ex False)
         results_ex)))) = 1"
proof -
  let ?m = "mappings (generateMappings nm_ex (new_TwmapProcessor cfg_hash_ex False) results_ex)"
  note t = classMappings_one_rule_per_canonical_form
             [of ?m "new_TwmapProcessor cfg_hash_ex False" nm_ex results_ex]
  have k: "''flex p-4'' \<in> fst ` set ?m" "''p-4 flex'' \<in> fst ` set ?m"
    unfolding hash_ex by simp_all
  have ms: "mset (tokens ''flex p-4'') = mset (tokens ''p-4 flex'')"
    unfolding tokens_ex by simp
  from t k ms have "normalized ''flex p-4'' = normalized ''p-4 flex'' \<and>
      length (filter (\<lambda>c. normalized (original c) = normalized ''flex p-4'' \<or>
                           normalized (original c) = normalized ''p-4 flex'') (classMappings ?m)) = 1"
    by blast
  moreover have "classMappings ?m =
     [\<lparr>original = ''flex p-4'', generated = ''tw-c0ffee''\<rparr>,
      \<lparr>original = ''mt-2'', generated = ''tw-c0ffee1''\<rparr>]"
    unfolding hash_ex by (rule css_ex)
  ultimately show ?thesis using proc_inv_new hash_ex ms by blast
qed

text \<open>
  C3 as stated fails for class-strings that are equal as token sets only: \<open>flex flex p-4\<close>
  and \<open>p-4 flex\<close> have the same set of tokens, and the canonical form keeps the repeated
  token, so they get two rules.
\<close>

theorem token_set_equal_two_rules:
  "set (tokens ''flex flex p-4'') = set (tokens ''p-4 flex'') \<and>
   classMappings (mappings (generateMappings nm_ex (new_TwmapProcessor cfg_hash_ex False)
      results_dup_ex)) =
     [\<lparr>original = ''flex flex p-4'', generated = ''tw-c0ffee''\<rparr>,
      \<lparr>original = ''p-4 flex'', generated = ''tw-c0ffee0''\<rparr>]"
  unfolding dup_ex tokens_ex by auto

subsection \<open>getMappings\<close>

lemma length_mutate: "length (mutate a h mop) = length h"
  by (simp add: mutate_def)

lemma length_mutations: "length (foldl (mutate a) h ops) = length h"
  by (induction ops arbitrary: h) (simp_all add: length_mutate)

lemma mutate_other: "b \<noteq> a \<Longrightarrow> mutate a h mop ! b = h ! b"
  by (simp add: mutate_def)

lemma mutations_other: "b \<noteq> a \<Longrightarrow> foldl (mutate a) h ops ! b = h ! b"
  by (induction ops arbitrary: h) (simp_all add: mutate_other)

lemma getMappings_result:
  "fst (getMappings h a) = length h" "snd (getMappings h a) = h @ [h ! a]"
  by (simp_all add: getMappings_def new_Map_def)

text \<open>
  C9. \<open>getMappings\<close> returns the address of a new Map object, different from the one the
  processor holds, with the processor's entries at the time of the call, and leaves every
  Map object that existed as it was. Whatever sequence of \<open>set\<close>, \<open>delete\<close> and
  \<open>clear\<close> is then applied to the returned Map, the processor's Map keeps its entries,
  and a later \<open>getMappings\<close> returns those entries again. Rewriting and the stylesheet
  read the processor's Map only.
\<close>

theorem getMappings_fresh_copy:
  assumes "this_mappings < length h"
  shows "fst (getMappings h this_mappings) \<noteq> this_mappings \<and>
         snd (getMappings h this_mappings) ! fst (getMappings h this_mappings) = h ! this_mappings \<and>
         take (length h) (snd (getMappings h this_mappings)) = h \<and>
         foldl (mutate (fst (getMappings h this_mappings))) (snd (getMappings h this_mappings)) ops
           ! this_mappings = h ! this_mappings \<and>
         snd (getMappings
                (foldl (mutate (fst (getMappings h this_mappings))) (snd (getMappings h this_mappings)) ops)
                this_mappings)
           ! fst (getMappings
                (foldl (mutate (fst (getMappings h this_mappings))) (snd (getMappings h this_mappings)) ops)
                this_mappings) = h ! this_mappings"
proof -
  let ?r = "fst (getMappings h this_mappings)"
  let ?h = "snd (getMappings h this_mappings)"
  let ?k = "foldl (mutate ?r) ?h ops"
  from assms have ne: "this_mappings \<noteq> ?r" by (simp add: getMappings_result)
  have copy: "?h ! ?r = h ! this_mappings" by (simp add: getMappings_result)
  have old: "take (length h) ?h = h" by (simp add: getMappings_result)
  have "?k ! this_mappings = ?h ! this_mappings" by (rule mutations_other [OF ne])
  also have "\<dots> = h ! this_mappings" using assms by (simp add: getMappings_result nth_append)
  finally have kept: "?k ! this_mappings = h ! this_mappings" .
  have again: "snd (getMappings ?k this_mappings) ! fst (getMappings ?k this_mappings) =
               ?k ! this_mappings"
    by (simp add: getMappings_result)
  from ne copy old kept again show ?thesis by simp
qed

theorem getMappings_fresh_copy_witness:
  "(0::nat) < length [[(''flex p-4'', ''tw-0'')]] \<and>
   fst (getMappings [[(''flex p-4'', ''tw-0'')]] 0) = 1 \<and>
   foldl (mutate (fst (getMappings [[(''flex p-4'', ''tw-0'')]] 0)))
         (snd (getMappings [[(''flex p-4'', ''tw-0'')]] 0))
         [MapSet ''flex p-4'' ''x'', MapDelete ''flex p-4'', MapSet ''a'' ''b'', MapClear] ! 0 =
     [(''flex p-4'', ''tw-0'')] \<and>
   foldl (mutate (fst (getMappings [[(''flex p-4'', ''tw-0'')]] 0)))
         (snd (getMappings [[(''flex p-4'', ''tw-0'')]] 0))
         [MapSet ''flex p-4'' ''x'', MapDelete ''flex p-4'', MapSet ''a'' ''b''] =
     [[(''flex p-4'', ''tw-0'')], [(''a'', ''b'')]]"
proof -
  have l: "(0::nat) < length [[(''flex p-4'', ''tw-0'')]]" by simp
  note t = getMappings_fresh_copy [OF l,
      of "[MapSet ''flex p-4'' ''x'', MapDelete ''flex p-4'', MapSet ''a'' ''b'', MapClear]"]
  have a: "fst (getMappings [[(''flex p-4'', ''tw-0'')]] 0) = 1"
    by (simp add: getMappings_result)
  have b: "foldl (mutate (fst (getMappings [[(''flex p-4'', ''tw-0'')]] 0)))
         (snd (getMappings [[(''flex p-4'', ''tw-0'')]] 0))
         [MapSet ''flex p-4'' ''x'', MapDelete ''flex p-4'', MapSet ''a'' ''b''] =
     [[(''flex p-4'', ''tw-0'')], [(''a'', ''b'')]]"
    by code_simp
  from t l a b show ?thesis by simp
qed

subsection \<open>Dry run\<close>

lemma emit_frame [simp]: "disk (emit es w) = disk w" "stylesheet (emit es w) = stylesheet w"
  "events (emit es w) = events w @ es"
  by (simp_all add: emit_def)

lemma generateMappings_step_frame:
  "dryRun (generateMappings_step nm p c) = dryRun p \<and> config (generateMappings_step nm p c) = config p"
  by (simp add: generateMappings_step_def Let_def)

lemma generateMappings_frame:
  "dryRun (generateMappings nm p rs) = dryRun p \<and> config (generateMappings nm p rs) = config p"
proof -
  have "dryRun (foldl (generateMappings_step nm) p cs) = dryRun p \<and>
        config (foldl (generateMappings_step nm) p cs) = config p" for cs
    by (induction cs arbitrary: p) (simp_all add: generateMappings_step_frame)
  then show ?thesis by (simp add: generateMappings_def)
qed

lemma replace_dry:
  "replaceClassNamesInFile env path m True w = Inr w' \<Longrightarrow>
     disk w' = disk w \<and> stylesheet w' = stylesheet w"
  by (auto simp: replaceClassNamesInFile_def Let_def split: option.splits sum.splits)

lemma replace_stylesheet:
  "replaceClassNamesInFile env path m dry w = Inr w' \<Longrightarrow> stylesheet w' = stylesheet w"
  by (auto simp: replaceClassNamesInFile_def Let_def split: option.splits sum.splits if_splits)

lemma update_dry:
  "dryRun p \<Longrightarrow> disk (updateSourceFile env p w r) = disk w \<and>
     stylesheet (updateSourceFile env p w r) = stylesheet w"
  by (auto simp: updateSourceFile_def split: sum.splits dest: replace_dry)

lemma updates_dry:
  "dryRun p \<Longrightarrow> disk (foldl (updateSourceFile env p) w rs) = disk w \<and>
     stylesheet (foldl (updateSourceFile env p) w rs) = stylesheet w"
  by (induction rs arbitrary: w) (simp_all add: update_dry)

lemma update_stylesheet: "stylesheet (updateSourceFile env p w r) = stylesheet w"
  by (auto simp: updateSourceFile_def split: sum.splits dest: replace_stylesheet)

lemma updates_stylesheet: "stylesheet (foldl (updateSourceFile env p) w rs) = stylesheet w"
  by (induction rs arbitrary: w) (simp_all add: update_stylesheet)

lemma generateCSSFile_dry:
  "dryRun p \<Longrightarrow> generateCSSFile env p w = Inr (emit [InfoDryRunCss (outputPath (config p))] w)"
  by (simp add: generateCSSFile_def)

lemma process_dry:
  assumes "dryRun p"
  shows "fst (process env p w) = None \<and> disk (snd (snd (process env p w))) = disk w \<and>
         stylesheet (snd (snd (process env p w))) = stylesheet w \<and>
         InfoDryRunCss (outputPath (config p)) \<in> set (events (snd (snd (process env p w))))"
proof -
  let ?p1 = "generateMappings (naming env) p (successfulParses env p w)"
  from assms have d: "dryRun ?p1" and c: "config ?p1 = config p"
    by (simp_all add: generateMappings_frame)
  show ?thesis
    unfolding process_def Let_def
    by (simp add: generateCSSFile_dry [OF d] c d updates_dry [OF d])
qed

text \<open>
  C5. With the dry-run flag set nothing is written: the stylesheet step returns after
  reporting the destination, the update step of a file leaves the disk and the stylesheet
  as they are and, for a file that can be read and parsed, reports the plan (replaced and
  skipped occurrences) and prints the dry-run mark; the whole of \<open>process\<close>, and of
  \<open>main\<close> with the flag, ends without failure and with the disk and the stylesheet
  unchanged.
\<close>

theorem dry_run_writes_nothing:
  assumes "dryRun p"
  shows "generateCSSFile env p w = Inr (emit [InfoDryRunCss (outputPath (config p))] w) \<and>
         disk (updateSourceFile env p w result) = disk w \<and>
         stylesheet (updateSourceFile env p w result) = stylesheet w \<and>
         (length (classNames result) > 0 \<and> disk w (filePath result) = Some content \<and>
          occurrencesOf env (filePath result) content = Inr occs \<longrightarrow>
            updateSourceFile env p w result =
              emit [PlanReported (filePath result)
                      (replaced (rewrite content occs (mappings p)))
                      (skipped (rewrite content occs (mappings p))),
                    Progress DryMark] w) \<and>
         fst (process env p w) = None \<and>
         disk (snd (snd (process env p w))) = disk w \<and>
         stylesheet (snd (snd (process env p w))) = stylesheet w \<and>
         InfoDryRunCss (outputPath (config p)) \<in> set (events (snd (snd (process env p w)))) \<and>
         disk (snd (main env cfg True w)) = disk w \<and>
         stylesheet (snd (main env cfg True w)) = stylesheet w"
proof -
  have m: "disk (snd (main env cfg True w)) = disk w \<and>
           stylesheet (snd (main env cfg True w)) = stylesheet w"
    using process_dry [of "new_TwmapProcessor cfg True" env w]
    by (simp add: main_def new_TwmapProcessor_def split: option.splits)
  have u: "updateSourceFile env p w result =
              emit [PlanReported (filePath result)
                      (replaced (rewrite content occs (mappings p)))
                      (skipped (rewrite content occs (mappings p))),
                    Progress DryMark] w"
    if "length (classNames result) > 0 \<and> disk w (filePath result) = Some content \<and>
          occurrencesOf env (filePath result) content = Inr occs"
    using that assms
    by (simp add: updateSourceFile_def replaceClassNamesInFile_def Let_def emit_def)
  from generateCSSFile_dry [OF assms] update_dry [OF assms] process_dry [OF assms] m u
  show ?thesis by blast
qed

lemma dry_events_ex:
  "events (snd (snd (process env_ex (new_TwmapProcessor cfg_ex True) world_ex))) =
     [WarnGlob ''['' (GlobError ''bad pattern''), WarnParseFailures 1,
      ErrorParseFailed ''/b.tsx'' ''Unexpected token'', InfoMappings 3,
      PlanReported ''/a.html'' 2 0, Progress DryMark,
      PlanReported ''/d.tsx'' 1 1, Progress DryMark,
      PlanReported ''/c.html'' 2 0, Progress DryMark, InfoDryRunCss ''out.css'',
      InfoStats
       [\<lparr>original = ''flex p-4'', generated = ''tw-0''\<rparr>,
        \<lparr>original = ''p-4 flex'', generated = ''tw-1''\<rparr>,
        \<lparr>original = ''mt-2'', generated = ''tw-2''\<rparr>],
      InfoDryRunSummary [''/a.html'', ''/d.tsx'', ''/c.html''],
      InfoCompleted ''out.css'']"
  by code_simp

theorem dry_run_writes_nothing_witness:
  "dryRun (new_TwmapProcessor cfg_ex True) \<and>
   fst (process env_ex (new_TwmapProcessor cfg_ex True) world_ex) = None \<and>
   disk (snd (snd (process env_ex (new_TwmapProcessor cfg_ex True) world_ex))) = disk world_ex \<and>
   stylesheet (snd (snd (process env_ex (new_TwmapProcessor cfg_ex True) world_ex))) = None \<and>
   events (snd (snd (process env_ex (new_TwmapProcessor cfg_ex True) world_ex))) =
     [WarnGlob ''['' (GlobError ''bad pattern''), WarnParseFailures 1,
      ErrorParseFailed ''/b.tsx'' ''Unexpected token'', InfoMappings 3,
      PlanReported ''/a.html'' 2 0, Progress DryMark,
      PlanReported ''/d.tsx'' 1 1, Progress DryMark,
      PlanReported ''/c.html'' 2 0, Progress DryMark, InfoDryRunCss ''out.css'',
      InfoStats
       [\<lparr>original = ''flex p-4'', generated = ''tw-0''\<rparr>,
        \<lparr>original = ''p-4 flex'', generated = ''tw-1''\<rparr>,
        \<lparr>original = ''mt-2'', generated = ''tw-2''\<rparr>],
      InfoDryRunSummary [''/a.html'', ''/d.tsx'', ''/c.html''],
      InfoCompleted ''out.css'']"
proof -
  have d: "dryRun (new_TwmapProcessor cfg_ex True)" by (simp add: new_TwmapProcessor_def)
  have s: "stylesheet world_ex = None" by (simp add: world_ex_def)
  from dry_run_writes_nothing [OF d, of env_ex world_ex] d s dry_events_ex
  show ?thesis by metis
qed

subsection \<open>Failures of single files\<close>






lemma generateCSSFile_cases:
  "generateCSSFile env p w =
     (if dryRun p then Inr (emit [InfoDryRunCss (outputPath (config p))] w)
      else if writable env (outputPath (config p))
           then Inr (w\<lparr>stylesheet := Some (outputPath (config p), classMappings (mappings p),
                                            cssCompressor (config p))\<rparr>)
           else Inl (WriteError (outputPath (config p))))"
  by (simp add: generateCSSFile_def generateCSS_def)




lemma process_stylesheet:
  "\<not> dryRun p \<Longrightarrow> writable env (outputPath (config p)) \<Longrightarrow>
     stylesheet (snd (snd (process env p w))) =
       Some (outputPath (config p), classMappings (mappings (fst (snd (process env p w)))),
             cssCompressor (config p))"
  unfolding process_def Let_def
  by (simp add: generateCSSFile_cases generateMappings_frame)



lemma ex_facts:
  "dryRun (new_TwmapProcessor cfg_ex False) = False"
  "config (new_TwmapProcessor cfg_ex False) = cfg_ex"
  "mappings (new_TwmapProcessor cfg_ex False) = []"
  "outputPath cfg_ex = ''out.css''"
  "cssCompressor cfg_ex = False"
  "writable env_ex ''out.css''"
  "\<not> writable env_lock_ex ''out.css''"
  "validateConfig env_ex cfg_ex = None"
  "filePath (parse_ex d ''/c.html'') = ''/c.html''"
  "length (classNames (parse_ex d ''/c.html'')) = 2"
  by (simp_all add: new_TwmapProcessor_def cfg_ex_def env_ex_def env_lock_ex_def validate_ex_def
        parse_ex_def)



subsection \<open>Files that fail to parse\<close>

lemma keys_map_set: "fst ` set (map_set m k v) = insert k (fst ` set m)"
  by (induction m) force+

lemma generateMappings_step_keys:
  "fst ` set (mappings (generateMappings_step nm p c)) = insert c (fst ` set (mappings p))"
  by (auto simp: generateMappings_step_def Let_def keys_map_set map_has_iff)

lemma generateMappings_keys:
  "fst ` set (mappings (generateMappings nm p rs)) =
     fst ` set (mappings p) \<union> (\<Union>r \<in> set rs. set (classNames r))"
proof -
  have "fst ` set (mappings (foldl (generateMappings_step nm) p cs)) =
        fst ` set (mappings p) \<union> set cs" for cs
    by (induction cs arbitrary: p) (auto simp: generateMappings_step_keys)
  then show ?thesis by (simp add: generateMappings_def set_allClassNames)
qed

lemma replace_disk_other:
  "replaceClassNamesInFile env path m dry w = Inr w' \<Longrightarrow> path \<noteq> f \<Longrightarrow> disk w' f = disk w f"
  by (auto simp: replaceClassNamesInFile_def Let_def split: option.splits sum.splits if_splits)

lemma update_disk_other:
  "filePath r \<noteq> f \<Longrightarrow> disk (updateSourceFile env p w r) f = disk w f"
  by (cases "replaceClassNamesInFile env (filePath r) (mappings p) (dryRun p) w")
     (auto simp: updateSourceFile_def dest: replace_disk_other)

lemma updates_disk_untouched:
  "\<forall>r \<in> set rs. filePath r \<noteq> f \<Longrightarrow> disk (foldl (updateSourceFile env p) w rs) f = disk w f"
  by (induction rs arbitrary: w) (simp_all add: update_disk_other)

lemma update_disk_self:
  assumes "length (classNames r) > 0" "\<not> dryRun p" "disk w (filePath r) = Some content"
    "occurrencesOf env (filePath r) content = Inr occs" "writable env (filePath r)"
  shows "disk (updateSourceFile env p w r) (filePath r) =
           Some (new_text (rewrite content occs (mappings p)))"
  using assms by (simp add: updateSourceFile_def replaceClassNamesInFile_def Let_def)

lemma updates_disk_self:
  assumes "r \<in> set rs" "distinct (map filePath rs)"
    "length (classNames r) > 0" "\<not> dryRun p" "disk w (filePath r) = Some content"
    "occurrencesOf env (filePath r) content = Inr occs" "writable env (filePath r)"
  shows "disk (foldl (updateSourceFile env p) w rs) (filePath r) =
           Some (new_text (rewrite content occs (mappings p)))"
proof -
  from assms(1) obtain xs ys where rs: "rs = xs @ r # ys" by (auto dest: split_list)
  with assms(2) have xs: "\<forall>x \<in> set xs. filePath x \<noteq> filePath r"
    and ys: "\<forall>y \<in> set ys. filePath y \<noteq> filePath r" by (auto simp: image_def)
  let ?w1 = "foldl (updateSourceFile env p) w xs"
  have "disk ?w1 (filePath r) = Some content"
    using updates_disk_untouched [OF xs] assms(5) by simp
  from update_disk_self [OF assms(3,4) this assms(6,7)]
  have "disk (updateSourceFile env p ?w1 r) (filePath r) =
          Some (new_text (rewrite content occs (mappings p)))" .
  with updates_disk_untouched [OF ys] show ?thesis by (simp add: rs)
qed

lemma process_disk:
  "\<exists>w3. disk w3 = disk w \<and>
     disk (snd (snd (process env p w))) =
       disk (foldl (updateSourceFile env (fst (snd (process env p w)))) w3 (successfulParses env p w))"
proof -
  let ?p1 = "generateMappings (naming env) p (successfulParses env p w)"
  let ?w3 = "emit [InfoMappings (length (mappings ?p1))]
              (emit (parse_failure_events (failedParses env p w))
                (emit (map (\<lambda>pe. WarnGlob (fst pe) (snd pe))
                         (snd (findFiles (glob env) (config p)))) w))"
  have "disk ?w3 = disk w" by simp
  moreover have "disk (snd (snd (process env p w))) =
       disk (foldl (updateSourceFile env (fst (snd (process env p w)))) ?w3 (successfulParses env p w))"
    unfolding process_mappings unfolding process_def Let_def
    by (simp add: generateCSSFile_cases)
  ultimately show ?thesis by blast
qed

text \<open>
  C7. The mapping after \<open>process\<close> is built from the successful parse results alone: its
  class-strings are those it had and those of the successful results, so a result with
  \<open>success\<close> false adds none, whatever it carries. A path that no successful result
  names is left on disk as it was. Each successful result with class-strings is rewritten
  with the final mapping (when the run is not a dry run, its file can be read, parsed and
  written, and the successful results are for different paths), and each of its
  class-strings has its canonical form among the rules of the stylesheet, when that is
  written. None of this depends on how many other files failed to parse.
\<close>

theorem failed_parse_is_isolated:
  "fst (snd (process env p w)) = generateMappings (naming env) p (successfulParses env p w) \<and>
   fst ` set (mappings (fst (snd (process env p w)))) =
     fst ` set (mappings p) \<union> (\<Union>r \<in> set (successfulParses env p w). set (classNames r)) \<and>
   ((\<forall>r \<in> set (successfulParses env p w). filePath r \<noteq> f) \<longrightarrow>
      disk (snd (snd (process env p w))) f = disk w f) \<and>
   (r \<in> set (successfulParses env p w) \<and> distinct (map filePath (successfulParses env p w)) \<and>
    length (classNames r) > 0 \<and> \<not> dryRun p \<and> disk w (filePath r) = Some content \<and>
    occurrencesOf env (filePath r) content = Inr occs \<and> writable env (filePath r) \<longrightarrow>
      disk (snd (snd (process env p w))) (filePath r) =
        Some (new_text (rewrite content occs (mappings (fst (snd (process env p w))))))) \<and>
   (\<not> dryRun p \<and> writable env (outputPath (config p)) \<longrightarrow>
      stylesheet (snd (snd (process env p w))) =
        Some (outputPath (config p), classMappings (mappings (fst (snd (process env p w)))),
              cssCompressor (config p)) \<and>
      (\<forall>r \<in> set (successfulParses env p w). \<forall>c \<in> set (classNames r).
         normalized c \<in> (\<lambda>x. normalized (original x)) `
                           set (classMappings (mappings (fst (snd (process env p w)))))))"
proof -
  let ?p1 = "fst (snd (process env p w))"
  let ?rs = "successfulParses env p w"
  have m: "?p1 = generateMappings (naming env) p ?rs" by (rule process_mappings)
  have k: "fst ` set (mappings ?p1) = fst ` set (mappings p) \<union> (\<Union>r \<in> set ?rs. set (classNames r))"
    unfolding m by (rule generateMappings_keys)
  from process_disk [of w env p] obtain w3 where w3: "disk w3 = disk w"
    and d: "disk (snd (snd (process env p w))) = disk (foldl (updateSourceFile env ?p1) w3 ?rs)"
    by blast
  have un: "disk (snd (snd (process env p w))) f = disk w f"
    if "\<forall>r \<in> set ?rs. filePath r \<noteq> f"
    using updates_disk_untouched [OF that, of env ?p1 w3] d w3 by simp
  have dr: "dryRun ?p1 = dryRun p" unfolding m by (simp add: generateMappings_frame)
  have self: "disk (snd (snd (process env p w))) (filePath r) =
        Some (new_text (rewrite content occs (mappings ?p1)))"
    if "r \<in> set ?rs \<and> distinct (map filePath ?rs) \<and>
        length (classNames r) > 0 \<and> \<not> dryRun p \<and> disk w (filePath r) = Some content \<and>
        occurrencesOf env (filePath r) content = Inr occs \<and> writable env (filePath r)"
    using updates_disk_self [of r ?rs ?p1 w3 content env occs] that d w3 dr by simp
  have rules: "normalized c \<in> (\<lambda>x. normalized (original x)) ` set (classMappings (mappings ?p1))"
    if "r \<in> set ?rs" "c \<in> set (classNames r)" for r c
  proof -
    from that k have "c \<in> fst ` set (mappings ?p1)" by blast
    then have "normalized c \<in> (\<lambda>e. normalized (fst e)) ` set (mappings ?p1)" by auto
    then show ?thesis by (simp only: classMappings_forms)
  qed
  show ?thesis
  proof (intro conjI impI ballI)
    show "?p1 = generateMappings (naming env) p ?rs" by (rule m)
    show "fst ` set (mappings ?p1) = fst ` set (mappings p) \<union> (\<Union>r \<in> set ?rs. set (classNames r))"
      by (rule k)
    show "disk (snd (snd (process env p w))) f = disk w f"
      if "\<forall>r \<in> set ?rs. filePath r \<noteq> f" using that by (rule un)
    show "disk (snd (snd (process env p w))) (filePath r) =
        Some (new_text (rewrite content occs (mappings ?p1)))"
      if "r \<in> set ?rs \<and> distinct (map filePath ?rs) \<and>
        length (classNames r) > 0 \<and> \<not> dryRun p \<and> disk w (filePath r) = Some content \<and>
        occurrencesOf env (filePath r) content = Inr occs \<and> writable env (filePath r)"
      using that by (rule self)
    show "stylesheet (snd (snd (process env p w))) =
        Some (outputPath (config p), classMappings (mappings ?p1), cssCompressor (config p))"
      if "\<not> dryRun p \<and> writable env (outputPath (config p))"
      using that process_stylesheet [of p env w] by simp
    show "normalized c \<in> (\<lambda>x. normalized (original x)) ` set (classMappings (mappings ?p1))"
      if "r \<in> set ?rs" "c \<in> set (classNames r)" for r c
      using that by (rule rules)
  qed
qed

lemma successful_ex:
  "successfulParses env_ex (new_TwmapProcessor cfg_ex False) world_ex =
     [parse_ex disk_ex ''/a.html'', parse_ex disk_ex ''/d.tsx'', parse_ex disk_ex ''/c.html'']"
  by (simp add: successfulParses_def parseResults_def env_ex_def world_ex_def findFiles_ex
        new_TwmapProcessor_def parse_ex_def)

lemma run_mappings_ex:
  "mappings (fst (snd (process env_ex (new_TwmapProcessor cfg_ex False) world_ex))) =
     [(''flex p-4'', ''tw-0''), (''p-4 flex'', ''tw-1''), (''mt-2'', ''tw-2'')]"
  unfolding process_mappings successfulParses_def parseResults_def by code_simp

lemma rewritten_a_ex:
  \<open>new_text (rewrite ''<p class="flex p-4"><b class="p-4 flex">''
      [mk_occ ''/a.html'' 10 18 (Some ''flex p-4''), mk_occ ''/a.html'' 30 38 (Some ''p-4 flex'')]
      [(''flex p-4'', ''tw-0''), (''p-4 flex'', ''tw-1''), (''mt-2'', ''tw-2'')]) =
    ''<p class="tw-0"><b class="tw-1">''\<close>
  by code_simp

theorem failed_parse_is_isolated_witness:
  \<open>map filePath (successfulParses env_ex (new_TwmapProcessor cfg_ex False) world_ex) =
     [''/a.html'', ''/d.tsx'', ''/c.html''] \<and>
   fst ` set (mappings (fst (snd (process env_ex (new_TwmapProcessor cfg_ex False) world_ex)))) =
     {''flex p-4'', ''p-4 flex'', ''mt-2''} \<and>
   disk (snd (snd (process env_ex (new_TwmapProcessor cfg_ex False) world_ex))) ''/b.tsx'' =
     Some ''<A className={'' \<and>
   disk (snd (snd (process env_ex (new_TwmapProcessor cfg_ex False) world_ex))) ''/a.html'' =
     Some ''<p class="tw-0"><b class="tw-1">'' \<and>
   stylesheet (snd (snd (process env_ex (new_TwmapProcessor cfg_ex False) world_ex))) =
     Some (''out.css'',
           [\<lparr>original = ''flex p-4'', generated = ''tw-0''\<rparr>,
            \<lparr>original = ''mt-2'', generated = ''tw-2''\<rparr>], False)\<close>
proof -
  let ?p = "new_TwmapProcessor cfg_ex False"
  let ?w = "snd (snd (process env_ex ?p world_ex))"
  let ?m = "mappings (fst (snd (process env_ex ?p world_ex)))"
  note t = failed_parse_is_isolated [of env_ex ?p world_ex "''/b.tsx''" "parse_ex disk_ex ''/a.html''"
      "the (disk_ex ''/a.html'')"
      "[mk_occ ''/a.html'' 10 18 (Some ''flex p-4''), mk_occ ''/a.html'' 30 38 (Some ''p-4 flex'')]"]
  have paths: "map filePath (successfulParses env_ex ?p world_ex) = [''/a.html'', ''/d.tsx'', ''/c.html'']"
    by (simp add: successful_ex parse_ex_def)
  have keys: "fst ` set ?m = {''flex p-4'', ''p-4 flex'', ''mt-2''}"
    unfolding run_mappings_ex by auto
  have h1: "\<forall>r \<in> set (successfulParses env_ex ?p world_ex). filePath r \<noteq> ''/b.tsx''"
    by (simp add: successful_ex parse_ex_def)
  from t h1 have b: "disk ?w ''/b.tsx'' = disk world_ex ''/b.tsx''" by blast
  have h2: "parse_ex disk_ex ''/a.html'' \<in> set (successfulParses env_ex ?p world_ex) \<and>
      distinct (map filePath (successfulParses env_ex ?p world_ex)) \<and>
      length (classNames (parse_ex disk_ex ''/a.html'')) > 0 \<and> \<not> dryRun ?p \<and>
      disk world_ex (filePath (parse_ex disk_ex ''/a.html'')) = Some (the (disk_ex ''/a.html'')) \<and>
      occurrencesOf env_ex (filePath (parse_ex disk_ex ''/a.html'')) (the (disk_ex ''/a.html'')) =
        Inr [mk_occ ''/a.html'' 10 18 (Some ''flex p-4''), mk_occ ''/a.html'' 30 38 (Some ''p-4 flex'')] \<and>
      writable env_ex (filePath (parse_ex disk_ex ''/a.html''))"
  proof -
    have fp: "filePath (parse_ex disk_ex ''/a.html'') = ''/a.html''" by (simp add: parse_ex_def)
    have m1: "parse_ex disk_ex ''/a.html'' \<in> set (successfulParses env_ex ?p world_ex)"
      by (simp add: successful_ex)
    have m2: "distinct (map filePath (successfulParses env_ex ?p world_ex))"
      unfolding paths by simp
    have m3: "length (classNames (parse_ex disk_ex ''/a.html'')) > 0" by (simp add: parse_ex_def)
    have m4: "\<not> dryRun ?p" by (simp add: new_TwmapProcessor_def)
    have m5: "disk world_ex ''/a.html'' = Some (the (disk_ex ''/a.html''))"
      by (simp add: world_ex_def disk_ex_def)
    have m6: "occurrencesOf env_ex ''/a.html'' (the (disk_ex ''/a.html'')) =
        Inr [mk_occ ''/a.html'' 10 18 (Some ''flex p-4''), mk_occ ''/a.html'' 30 38 (Some ''p-4 flex'')]"
      by (simp add: env_ex_def occurrences_ex_def)
    have m7: "writable env_ex ''/a.html''" by (simp add: env_ex_def)
    from m1 m2 m3 m4 m5 m6 m7 show ?thesis unfolding fp by blast
  qed
  from t h2 have "disk ?w (filePath (parse_ex disk_ex ''/a.html'')) =
      Some (new_text (rewrite (the (disk_ex ''/a.html''))
        [mk_occ ''/a.html'' 10 18 (Some ''flex p-4''), mk_occ ''/a.html'' 30 38 (Some ''p-4 flex'')] ?m))"
    by blast
  then have a: \<open>disk ?w ''/a.html'' = Some ''<p class="tw-0"><b class="tw-1">''\<close>
    unfolding run_mappings_ex by (simp add: parse_ex_def disk_ex_def rewritten_a_ex)
  have h3: "\<not> dryRun ?p \<and> writable env_ex (outputPath (config ?p))"
    by (simp add: ex_facts)
  from t h3 have "stylesheet ?w = Some (outputPath (config ?p), classMappings ?m, cssCompressor (config ?p))"
    by blast
  moreover have "classMappings [(''flex p-4'', ''tw-0''), (''p-4 flex'', ''tw-1''), (''mt-2'', ''tw-2'')] =
      [\<lparr>original = ''flex p-4'', generated = ''tw-0''\<rparr>, \<lparr>original = ''mt-2'', generated = ''tw-2''\<rparr>]"
    by code_simp
  ultimately have c: "stylesheet ?w = Some (''out.css'',
           [\<lparr>original = ''flex p-4'', generated = ''tw-0''\<rparr>,
            \<lparr>original = ''mt-2'', generated = ''tw-2''\<rparr>], False)"
    unfolding run_mappings_ex by (simp add: ex_facts)
  from b have b': "disk ?w ''/b.tsx'' = Some ''<A className={''"
    by (simp add: world_ex_def disk_ex_def)
  from paths keys b' a c show ?thesis by blast
qed

subsection \<open>The rewriter leaves dynamic occurrences alone\<close>

lemma ranges_ok_bound: "ranges_ok cur n rs \<Longrightarrow> cur \<le> n"
  by (induction cur n rs rule: ranges_ok.induct) auto

lemma ranges_ok_earlier: "ranges_ok cur n rs \<Longrightarrow> k \<le> cur \<Longrightarrow> ranges_ok k n rs"
  by (cases rs) auto

lemma ranges_ok_split:
  "ranges_ok cur n (rs1 @ (a, b) # rs2) \<Longrightarrow> ranges_ok cur a rs1 \<and> a \<le> b \<and> ranges_ok b n rs2"
  by (induction rs1 arbitrary: cur) auto

lemma ranges_ok_ends: "ranges_ok cur n rs \<Longrightarrow> r \<in> set rs \<Longrightarrow> cur \<le> fst r \<and> fst r \<le> snd r \<and> snd r \<le> n"
proof (induction rs arbitrary: cur)
  case Nil
  then show ?case by simp
next
  case (Cons x rs)
  obtain s e where x: "x = (s, e)" by (cases x)
  from Cons.prems x have c: "cur \<le> s" "s \<le> e" and ok: "ranges_ok e n rs" by auto
  from ranges_ok_bound [OF ok] have "e \<le> n" .
  show ?case
  proof (cases "r = x")
    case True
    with x c \<open>e \<le> n\<close> show ?thesis by simp
  next
    case False
    with Cons.prems have "r \<in> set rs" by simp
    from Cons.IH [OF ok this] c show ?thesis by simp
  qed
qed

lemma planned_for_range:
  "planned_for m oc = Some r \<Longrightarrow> (fst r, fst (snd r)) = byte_range oc"
  by (auto simp: planned_for_def split: if_splits option.splits)

lemma planned_for_dynamic: "\<not> safe oc \<Longrightarrow> planned_for m oc = None"
  by (simp add: planned_for_def)

lemma ranges_ok_planned:
  "ranges_ok cur n (map byte_range os) \<Longrightarrow>
     ranges_ok cur n (map (\<lambda>r. (fst r, fst (snd r))) (List.map_filter (planned_for m) os))"
proof (induction os arbitrary: cur)
  case Nil
  then show ?case by (simp add: map_filter_simps)
next
  case (Cons x os)
  obtain s e where x: "byte_range x = (s, e)" by (cases "byte_range x")
  from Cons.prems x have c: "cur \<le> s" "s \<le> e" and ok: "ranges_ok e n (map byte_range os)" by auto
  note ih = Cons.IH [OF ok]
  show ?case
  proof (cases "planned_for m x")
    case None
    from ranges_ok_earlier [OF ih] c have
      "ranges_ok cur n (map (\<lambda>r. (fst r, fst (snd r))) (List.map_filter (planned_for m) os))" by simp
    with None show ?thesis by (simp add: map_filter_simps)
  next
    case (Some r)
    from planned_for_range [OF Some] x have "(fst r, fst (snd r)) = (s, e)" by simp
    with Some ih c show ?thesis by (simp add: map_filter_simps)
  qed
qed

lemma apply_prefix:
  "ranges_ok k (length c) (map (\<lambda>r. (fst r, fst (snd r))) rs) \<Longrightarrow>
     take k (foldr apply_replacement rs c) = take k c"
proof (induction rs arbitrary: k)
  case Nil
  then show ?case by simp
next
  case (Cons p rs)
  obtain s e t where p: "p = (s, e, t)" by (cases p)
  let ?R = "foldr apply_replacement rs c"
  from Cons.prems p have c: "k \<le> s" "s \<le> e"
    and ok: "ranges_ok e (length c) (map (\<lambda>r. (fst r, fst (snd r))) rs)" by auto
  from Cons.IH [OF ok] have ih: "take e ?R = take e c" .
  from ranges_ok_bound [OF ok] have "e \<le> length c" .
  then have "length (take e ?R) = e" by (simp add: ih)
  then have len: "e \<le> length ?R" by simp
  have "take k (take s ?R @ t @ drop e ?R) = take k (take s ?R)"
    using c len by simp
  also have "\<dots> = take k (take e ?R)" using c by (simp add: min_def)
  also have "\<dots> = take k c" using c by (simp add: ih min_def)
  finally show ?case by (simp add: p)
qed

lemma apply_length_ge:
  assumes "ranges_ok k (length c) (map (\<lambda>r. (fst r, fst (snd r))) rs)"
  shows "k \<le> length (foldr apply_replacement rs c)"
proof -
  from ranges_ok_bound [OF assms] have "k \<le> length c" .
  then have "length (take k (foldr apply_replacement rs c)) = k"
    by (simp add: apply_prefix [OF assms])
  then show ?thesis by simp
qed

lemma apply_suffix:
  "ranges_ok cur (length x) (map (\<lambda>r. (fst r, fst (snd r))) ps) \<Longrightarrow>
     foldr apply_replacement ps (x @ y) = foldr apply_replacement ps x @ y"
proof (induction ps arbitrary: cur)
  case Nil
  then show ?case by simp
next
  case (Cons p ps)
  obtain s e t where p: "p = (s, e, t)" by (cases p)
  let ?R = "foldr apply_replacement ps x"
  from Cons.prems p have c: "cur \<le> s" "s \<le> e"
    and ok: "ranges_ok e (length x) (map (\<lambda>r. (fst r, fst (snd r))) ps)" by auto
  from Cons.IH [OF ok] have ih: "foldr apply_replacement ps (x @ y) = ?R @ y" .
  from apply_length_ge [OF ok] have len: "e \<le> length ?R" .
  show ?case using c len by (simp add: p ih)
qed

lemma apply_length:
  "ranges_ok cur (length x) (map (\<lambda>r. (fst r, fst (snd r))) ps) \<Longrightarrow>
     length (foldr apply_replacement ps x) + sum_list (map (\<lambda>r. fst (snd r) - fst r) ps) =
       length x + sum_list (map (\<lambda>r. length (snd (snd r))) ps) \<and>
     sum_list (map (\<lambda>r. fst (snd r) - fst r) ps) + cur \<le> length x"
proof (induction ps arbitrary: cur)
  case Nil
  then show ?case by simp
next
  case (Cons p ps)
  obtain s e t where p: "p = (s, e, t)" by (cases p)
  let ?R = "foldr apply_replacement ps x"
  from Cons.prems p have c: "cur \<le> s" "s \<le> e"
    and ok: "ranges_ok e (length x) (map (\<lambda>r. (fst r, fst (snd r))) ps)" by auto
  from Cons.IH [OF ok] have ih:
    "length ?R + sum_list (map (\<lambda>r. fst (snd r) - fst r) ps) =
       length x + sum_list (map (\<lambda>r. length (snd (snd r))) ps)"
    "sum_list (map (\<lambda>r. fst (snd r) - fst r) ps) + e \<le> length x" by simp_all
  from apply_length_ge [OF ok] have len: "e \<le> length ?R" .
  have l: "length (foldr apply_replacement (p # ps) x) = s + length t + (length ?R - e)"
    using c len by (simp add: p)
  have s1: "sum_list (map (\<lambda>r. fst (snd r) - fst r) (p # ps)) =
            (e - s) + sum_list (map (\<lambda>r. fst (snd r) - fst r) ps)"
    and s2: "sum_list (map (\<lambda>r. length (snd (snd r))) (p # ps)) =
            length t + sum_list (map (\<lambda>r. length (snd (snd r))) ps)"
    by (simp_all add: p)
  show ?case unfolding l s1 s2 using c len ih by linarith
qed


lemma frame_core:
  assumes ps: "ranges_ok 0 a (map (\<lambda>r. (fst r, fst (snd r))) ps)"
    and qs: "ranges_ok b (length c) (map (\<lambda>r. (fst r, fst (snd r))) qs)"
    and ab: "a \<le> b"
  shows "foldr apply_replacement (ps @ qs) c =
           foldr apply_replacement ps (take a c) @ drop a (foldr apply_replacement qs c)"
    and "take (b - a) (drop a (foldr apply_replacement qs c)) = take (b - a) (drop a c)"
    and "length (foldr apply_replacement ps (take a c)) +
           sum_list (map (\<lambda>r. fst (snd r) - fst r) ps) =
         a + sum_list (map (\<lambda>r. length (snd (snd r))) ps)"
proof -
  let ?c = "foldr apply_replacement qs c"
  from ranges_ok_bound [OF qs] have bn: "b \<le> length c" .
  from apply_prefix [OF qs] have pre: "take b ?c = take b c" .
  have "take a ?c = take a (take b ?c)" using ab by (simp add: min_def)
  also have "\<dots> = take a c" using ab by (simp add: pre min_def)
  finally have ta: "take a ?c = take a c" .
  have la: "length (take a c) = a" using ab bn by simp
  from ps la have ps': "ranges_ok 0 (length (take a c)) (map (\<lambda>r. (fst r, fst (snd r))) ps)"
    by simp
  have "foldr apply_replacement (ps @ qs) c = foldr apply_replacement ps (take a ?c @ drop a ?c)"
    by simp
  also have "\<dots> = foldr apply_replacement ps (take a c) @ drop a ?c"
    unfolding ta by (rule apply_suffix [OF ps'])
  finally show "foldr apply_replacement (ps @ qs) c =
           foldr apply_replacement ps (take a c) @ drop a ?c" .
  have "take (b - a) (drop a ?c) = drop a (take b ?c)" by (simp add: drop_take)
  also have "\<dots> = take (b - a) (drop a c)" by (simp add: pre drop_take)
  finally show "take (b - a) (drop a ?c) = take (b - a) (drop a c)" .
  from apply_length [OF ps'] la
  show "length (foldr apply_replacement ps (take a c)) +
           sum_list (map (\<lambda>r. fst (snd r) - fst r) ps) =
         a + sum_list (map (\<lambda>r. length (snd (snd r))) ps)" by simp
qed

lemma map_filter_append:
  "List.map_filter f (xs @ ys) = List.map_filter f xs @ List.map_filter f ys"
  by (simp add: map_filter_def)

lemma frame_shift:
  assumes ps: "ranges_ok 0 a (map (\<lambda>r. (fst r, fst (snd r))) ps)"
    and qs: "ranges_ok b n (map (\<lambda>r. (fst r, fst (snd r))) qs)"
    and ab: "a < b"
  shows "shifted_start (ps @ qs) a =
           a + sum_list (map (\<lambda>r. length (snd (snd r))) ps)
             - sum_list (map (\<lambda>r. fst (snd r) - fst r) ps)"
proof -
  have "fst (snd r) \<le> a" if "r \<in> set ps" for r
    using ranges_ok_ends [OF ps, of "(fst r, fst (snd r))"] that by auto
  then have f1: "filter (\<lambda>r. fst (snd r) \<le> a) ps = ps" by (simp add: filter_id_conv)
  have "\<not> fst (snd r) \<le> a" if "r \<in> set qs" for r
    using ranges_ok_ends [OF qs, of "(fst r, fst (snd r))"] that ab by auto
  then have f2: "filter (\<lambda>r. fst (snd r) \<le> a) qs = []" by (simp add: filter_empty_conv)
  show ?thesis by (simp add: shifted_start_def f1 f2)
qed


lemma frame_unplanned:
  assumes ok: "occurrences_ok content occs" and mem: "oc \<in> set occs"
    and none: "planned_for m oc = None"
  shows "bytes_at (new_text (rewrite content occs m))
           (shifted_start (plan m occs) (fst (byte_range oc)),
            shifted_start (plan m occs) (fst (byte_range oc))
              + (snd (byte_range oc) - fst (byte_range oc))) =
         bytes_at content (byte_range oc)"
proof -
  let ?os = "sort_key (\<lambda>occ. fst (byte_range occ)) occs"
  obtain a b where ab: "byte_range oc = (a, b)" by (cases "byte_range oc")
  from mem have "oc \<in> set ?os" by simp
  from split_list [OF this] obtain xs ys where os: "?os = xs @ oc # ys" by blast
  from ok have "ranges_ok 0 (length content) (map byte_range xs @ (a, b) # map byte_range ys)"
    by (simp add: occurrences_ok_def os ab)
  from ranges_ok_split [OF this]
  have rx: "ranges_ok 0 a (map byte_range xs)" and le: "a \<le> b"
    and ry: "ranges_ok b (length content) (map byte_range ys)" by simp_all
  let ?ps = "List.map_filter (planned_for m) xs"
  let ?qs = "List.map_filter (planned_for m) ys"
  have pl: "plan m occs = ?ps @ ?qs"
    by (simp add: plan_def os map_filter_append map_filter_simps none)
  note ps = ranges_ok_planned [OF rx, of m]
  note qs = ranges_ok_planned [OF ry, of m]
  note core = frame_core [OF ps qs le]
  have "take (b - a) (drop (shifted_start (plan m occs) a) (new_text (rewrite content occs m))) =
        take (b - a) (drop a content)"
  proof (cases "a = b")
    case True
    then show ?thesis by simp
  next
    case False
    with le have "a < b" by simp
    from frame_shift [OF ps qs this] core(3)
    have sh: "shifted_start (plan m occs) a = length (foldr apply_replacement ?ps (take a content))"
      unfolding pl by linarith
    have nt: "new_text (rewrite content occs m) =
              foldr apply_replacement ?ps (take a content) @
              drop a (foldr apply_replacement ?qs content)"
      using core(1) by (simp add: rewrite_def pl)
    have "drop (shifted_start (plan m occs) a) (new_text (rewrite content occs m)) =
          drop a (foldr apply_replacement ?qs content)"
      unfolding sh nt by simp
    then show ?thesis by (simp add: core(2))
  qed
  then show ?thesis by (simp add: ab bytes_at_def)
qed


lemma plan_depends_on_planned:
  assumes "filter (\<lambda>oc. planned_for m oc \<noteq> None) occs1 =
           filter (\<lambda>oc. planned_for m oc \<noteq> None) occs2"
  shows "plan m occs1 = plan m occs2"
proof -
  have "plan m occs = map (the \<circ> planned_for m)
          (sort_key (\<lambda>occ. fst (byte_range occ)) (filter (\<lambda>oc. planned_for m oc \<noteq> None) occs))"
    for occs
    by (simp add: plan_def map_filter_def filter_sort)
  with assms show ?thesis by simp
qed

lemma planned_from_safe:
  assumes "r \<in> set (plan m occs)"
  shows "\<exists>so \<in> set occs. safe so \<and> byte_range so = (fst r, fst (snd r))"
proof -
  from assms obtain so where so: "so \<in> set occs" and p: "planned_for m so = Some r"
    by (auto simp: plan_def map_filter_def)
  from p have "safe so" by (auto simp: planned_for_def split: if_splits)
  with so planned_for_range [OF p] show ?thesis by auto
qed


text \<open>
  C2 (as amended). For an occurrence classified Dynamic (\<open>safe\<close> false) no replacement
  is planned, and every range that is replaced is the range of a safe occurrence, for any
  file content and any mapping. When the range of the Dynamic occurrence and the ranges
  that are replaced lie inside the text and none reaches into another, the bytes of the
  Dynamic range are in the rewritten text as they were, at the place to which the
  replacements before it have moved them.
\<close>

theorem dynamic_occurrence_untouched:
  "(\<not> safe oc \<longrightarrow> planned_for m oc = None) \<and>
   (\<forall>r \<in> set (plan m occs). \<exists>so \<in> set occs. safe so \<and> byte_range so = (fst r, fst (snd r))) \<and>
   (\<not> safe oc \<and>
    occurrences_ok content (oc # filter (\<lambda>so. planned_for m so \<noteq> None) occs) \<longrightarrow>
      bytes_at (new_text (rewrite content occs m))
        (shifted_start (plan m occs) (fst (byte_range oc)),
         shifted_start (plan m occs) (fst (byte_range oc))
           + (snd (byte_range oc) - fst (byte_range oc))) =
      bytes_at content (byte_range oc))"
proof (intro conjI impI ballI)
  show "planned_for m oc = None" if "\<not> safe oc" using that by (rule planned_for_dynamic)
  show "\<exists>so \<in> set occs. safe so \<and> byte_range so = (fst r, fst (snd r))"
    if "r \<in> set (plan m occs)" for r using that by (rule planned_from_safe)
  show "bytes_at (new_text (rewrite content occs m))
        (shifted_start (plan m occs) (fst (byte_range oc)),
         shifted_start (plan m occs) (fst (byte_range oc))
           + (snd (byte_range oc) - fst (byte_range oc))) =
      bytes_at content (byte_range oc)"
    if h: "\<not> safe oc \<and>
           occurrences_ok content (oc # filter (\<lambda>so. planned_for m so \<noteq> None) occs)"
  proof -
    let ?occs = "oc # filter (\<lambda>so. planned_for m so \<noteq> None) occs"
    from h have none: "planned_for m oc = None" by (simp add: planned_for_dynamic)
    then have "filter (\<lambda>so. planned_for m so \<noteq> None) ?occs =
               filter (\<lambda>so. planned_for m so \<noteq> None) occs" by simp
    from plan_depends_on_planned [OF this] have pl: "plan m ?occs = plan m occs" .
    then have nt: "new_text (rewrite content ?occs m) = new_text (rewrite content occs m)"
      by (simp add: rewrite_def)
    from h have ok: "occurrences_ok content ?occs" by simp
    have mem: "oc \<in> set ?occs" by simp
    from frame_unplanned [OF ok mem none] show ?thesis by (simp only: pl nt)
  qed
qed

lemma d_ex:
  "occurrences_ok content_d_ex
     (mk_occ ''/d.tsx'' 38 45 None # filter (\<lambda>so. planned_for mapping_ex so \<noteq> None) occs_d_ex)"
  "shifted_start (plan mapping_ex occs_d_ex) 38 = 34"
  "bytes_at (new_text (rewrite content_d_ex occs_d_ex mapping_ex)) (34, 41) = ''{cx(a)}''"
  "bytes_at content_d_ex (38, 45) = ''{cx(a)}''"
  by code_simp+

theorem dynamic_occurrence_untouched_witness:
  "mk_occ ''/d.tsx'' 38 45 None \<in> set occs_d_ex \<and>
   \<not> safe (mk_occ ''/d.tsx'' 38 45 None) \<and>
   occurrences_ok content_d_ex
     (mk_occ ''/d.tsx'' 38 45 None # filter (\<lambda>so. planned_for mapping_ex so \<noteq> None) occs_d_ex) \<and>
   planned_for mapping_ex (mk_occ ''/d.tsx'' 38 45 None) = None \<and>
   shifted_start (plan mapping_ex occs_d_ex) 38 = 34 \<and>
   bytes_at (new_text (rewrite content_d_ex occs_d_ex mapping_ex)) (34, 41) = ''{cx(a)}'' \<and>
   bytes_at (new_text (rewrite content_d_ex occs_d_ex mapping_ex))
     (shifted_start (plan mapping_ex occs_d_ex) (fst (byte_range (mk_occ ''/d.tsx'' 38 45 None))),
      shifted_start (plan mapping_ex occs_d_ex) (fst (byte_range (mk_occ ''/d.tsx'' 38 45 None)))
        + (snd (byte_range (mk_occ ''/d.tsx'' 38 45 None))
           - fst (byte_range (mk_occ ''/d.tsx'' 38 45 None)))) =
     bytes_at content_d_ex (byte_range (mk_occ ''/d.tsx'' 38 45 None))"
proof -
  note t = dynamic_occurrence_untouched
             [of "mk_occ ''/d.tsx'' 38 45 None" mapping_ex occs_d_ex content_d_ex]
  have m: "mk_occ ''/d.tsx'' 38 45 None \<in> set occs_d_ex" by (simp add: occs_d_ex_def)
  have u: "\<not> safe (mk_occ ''/d.tsx'' 38 45 None)" by (simp add: mk_occ_def)
  from t u have n: "planned_for mapping_ex (mk_occ ''/d.tsx'' 38 45 None) = None" by blast
  from t u d_ex(1)
  have f: "bytes_at (new_text (rewrite content_d_ex occs_d_ex mapping_ex))
     (shifted_start (plan mapping_ex occs_d_ex) (fst (byte_range (mk_occ ''/d.tsx'' 38 45 None))),
      shifted_start (plan mapping_ex occs_d_ex) (fst (byte_range (mk_occ ''/d.tsx'' 38 45 None)))
        + (snd (byte_range (mk_occ ''/d.tsx'' 38 45 None))
           - fst (byte_range (mk_occ ''/d.tsx'' 38 45 None)))) =
     bytes_at content_d_ex (byte_range (mk_occ ''/d.tsx'' 38 45 None))"
    by blast
  from m u d_ex n f show ?thesis by blast
qed

lemma nested_ex:
  \<open>bytes_at content_nested_ex (13, 43) = ''{f(<I className="flex p-4"/>)}''\<close>
  \<open>new_text (rewrite content_nested_ex occs_nested_ex mapping_ex) =
     ''<L className={f(<I className="tw-0"/>)}/>''\<close>
  \<open>bytes_at (new_text (rewrite content_nested_ex occs_nested_ex mapping_ex)) (13, 39) =
     ''{f(<I className="tw-0"/>)}''\<close>
  "shifted_start (plan mapping_ex occs_nested_ex) 13 = 13"
  "occurrences_ok content_nested_ex occs_nested_ex = False"
  by code_simp+

text \<open>
  C2 as stated fails where a replaced occurrence lies inside a Dynamic value: the
  expression below holds an element with a static class attribute, which is rewritten, so
  the bytes of the Dynamic range 13 to 43 change.
\<close>

theorem nested_static_changes_dynamic_range:
  \<open>mk_occ ''/n.tsx'' 13 43 None \<in> set occs_nested_ex \<and>
   \<not> safe (mk_occ ''/n.tsx'' 13 43 None) \<and>
   byte_range (mk_occ ''/n.tsx'' 13 43 None) = (13, 43) \<and>
   bytes_at content_nested_ex (13, 43) = ''{f(<I className="flex p-4"/>)}'' \<and>
   new_text (rewrite content_nested_ex occs_nested_ex mapping_ex) =
     ''<L className={f(<I className="tw-0"/>)}/>'' \<and>
   bytes_at (new_text (rewrite content_nested_ex occs_nested_ex mapping_ex)) (13, 39) =
     ''{f(<I className="tw-0"/>)}''\<close>
proof -
  have m: "mk_occ ''/n.tsx'' 13 43 None \<in> set occs_nested_ex" by (simp add: occs_nested_ex_def)
  have u: "\<not> safe (mk_occ ''/n.tsx'' 13 43 None)"
    and r: "byte_range (mk_occ ''/n.tsx'' 13 43 None) = (13, 43)" by (simp_all add: mk_occ_def)
  from m u r nested_ex(1,2,3) show ?thesis by blast
qed

subsection \<open>Rewriting twice\<close>









end
